theory Spec2Isabelle
  imports Main "HOL-Library.AList"
begin

text \<open>
  A shallow embedding of the package \<^verbatim>\<open>env\<close> (env.go), which loads environment variables
  into the fields of a Go struct. The file env.go holds two revisions of the package, one
  after the other; the definitions below follow the second one (from line 349 on), the
  one the tests of the repository exercise. Where the first revision differs on a point
  a theorem is about, the text says so.
\<close>

section \<open>Strings, errors and panics\<close>

text \<open>
  A Go string is modelled by the sequence of runes that \<^verbatim>\<open>for _, r := range s\<close> and
  \<^verbatim>\<open>[]rune(s)\<close> yield, a rune being a \<^typ>\<open>char\<close> (code points below 256).
\<close>

abbreviation comma :: char where "comma \<equiv> CHR 0x2C"
abbreviation dquote :: char where "dquote \<equiv> CHR 0x22"
abbreviation backslash :: char where "backslash \<equiv> CHR 0x5C"
abbreviation nul :: char where "nul \<equiv> CHR 0x00"

text \<open>\<^verbatim>\<open>unicode.IsSpace\<close> on the Latin-1 range: tab, LF, VT, FF, CR, space, NEL, NBSP.\<close>

definition isSpace :: "char \<Rightarrow> bool" where
  "isSpace r \<longleftrightarrow> r \<in> {CHR 0x09, CHR 0x0A, CHR 0x0B, CHR 0x0C, CHR 0x0D, CHR 0x20, CHR 0x85, CHR 0xA0}"

text \<open>
  The errors of \<^verbatim>\<open>tokenizeSliceString\<close>, one constructor per \<^verbatim>\<open>fmt.Errorf\<close> message:
  "empty fields must be quoted", "NUL byte in input", "unbalanced quotes", "trailing \".
\<close>

datatype tokErr = EmptyUnquotedField | NulByte | UnbalancedQuotes | TrailingEscape

text \<open>A run-time panic of the Go program; a function that can panic returns a \<open>res\<close>.\<close>

datatype panic = IndexOutOfRange | SetUnaddressable | EmptyFieldName

datatype 'a res = Panic panic | Ret 'a

section \<open>The list tokenizer\<close>

text \<open>
  The loop of \<^verbatim>\<open>tokenizeSliceString\<close>: the state is the two flags \<open>q\<close> and \<open>esc\<close>, the
  builder \<open>sb\<close> and the fields collected so far.
\<close>

fun tokenizeLoop :: "bool \<Rightarrow> bool \<Rightarrow> string \<Rightarrow> string list \<Rightarrow> string
    \<Rightarrow> tokErr + (bool \<times> bool \<times> string \<times> string list)" where
  "tokenizeLoop q esc sb fields [] = Inr (q, esc, sb, fields)"
| "tokenizeLoop q esc sb fields (r # rs) =
     (if r = comma \<and> \<not> esc \<and> \<not> q then
        (if length sb = 0 then Inl EmptyUnquotedField
         else tokenizeLoop q esc [] (fields @ [sb]) rs)
      else
        (if r = dquote \<and> \<not> esc then tokenizeLoop (\<not> q) esc (sb @ [r]) fields rs
         else if r = backslash \<and> \<not> esc then tokenizeLoop q True (sb @ [r]) fields rs
         else if r = nul then Inl NulByte
         else tokenizeLoop q False (sb @ [r]) fields rs))"

definition tokenizeSliceString :: "string \<Rightarrow> tokErr + string list" where
  "tokenizeSliceString s =
     (case tokenizeLoop False False [] [] s of
        Inl e \<Rightarrow> Inl e
      | Inr (q, esc, sb, fields) \<Rightarrow>
          (let fields = (if length sb > 0 then fields @ [sb] else fields)
           in if q then Inl UnbalancedQuotes
              else if esc then Inl TrailingEscape
              else Inr fields))"

text \<open>
  \<^verbatim>\<open>unescapeSliceField\<close>. The first loop runs \<open>end\<close> down from \<open>len(runes) - 1\<close>;
  \<open>findEnd runes n\<close> is the value of \<open>end\<close> when the loop is entered with \<open>end = n - 1\<close>.
  A backslash found there moves \<open>end\<close> one place to the right, whatever follows it.
\<close>

fun findEnd :: "string \<Rightarrow> nat \<Rightarrow> int" where
  "findEnd runes 0 = -1"
| "findEnd runes (Suc e) =
     (if isSpace (runes ! e) then findEnd runes e
      else if runes ! e = backslash then int e + 1
      else int e)"

function findStart :: "string \<Rightarrow> nat \<Rightarrow> nat" where
  "findStart runes start =
     (if start < length runes \<and> isSpace (runes ! start) then findStart runes (start + 1)
      else start)"
  by pat_completeness auto
termination
  by (relation "measure (\<lambda>(runes, start). length runes - start)") auto

declare findStart.simps [simp del]

text \<open>
  The extraction loop \<^verbatim>\<open>for i := start; i <= end; i++\<close>. Both reads \<^verbatim>\<open>runes[i]\<close> are
  bounds-checked by Go: an index at or beyond \<open>len(runes)\<close> panics.
\<close>

function unescapeLoop :: "string \<Rightarrow> int \<Rightarrow> nat \<Rightarrow> string \<Rightarrow> string res" where
  "unescapeLoop runes end i sb =
     (if int i \<le> end then
        (if i \<ge> length runes then Panic IndexOutOfRange
         else if runes ! i = backslash then
           (if i + 1 \<ge> length runes then Panic IndexOutOfRange
            else unescapeLoop runes end (i + 2) (sb @ [runes ! (i + 1)]))
         else if runes ! i \<noteq> dquote then unescapeLoop runes end (i + 1) (sb @ [runes ! i])
         else unescapeLoop runes end (i + 1) sb)
      else Ret sb)"
  by pat_completeness auto
termination
  by (relation "measure (\<lambda>(runes, end, i, sb). nat (end + 1 - int i))") auto

declare unescapeLoop.simps [simp del]

definition unescapeSliceField :: "string \<Rightarrow> string res" where
  "unescapeSliceField f =
     (let end = findEnd f (length f); start = findStart f 0
      in unescapeLoop f end start [])"

text \<open>The loop \<^verbatim>\<open>for i, f := range fields { fields[i] = unescapeSliceField(f) }\<close>.\<close>

fun unescapeFields :: "string list \<Rightarrow> string list res" where
  "unescapeFields [] = Ret []"
| "unescapeFields (f # fs) =
     (case unescapeSliceField f of
        Panic p \<Rightarrow> Panic p
      | Ret f' \<Rightarrow> (case unescapeFields fs of Panic p \<Rightarrow> Panic p | Ret fs' \<Rightarrow> Ret (f' # fs')))"

text \<open>
  The first half of \<^verbatim>\<open>parseAndSetSlice\<close>: tokenize, return the tokenizer's error if there
  is one, else unescape every field.
\<close>

definition splitSlice :: "string \<Rightarrow> (tokErr + string list) res" where
  "splitSlice s =
     (case tokenizeSliceString s of
        Inl e \<Rightarrow> Ret (Inl e)
      | Inr fields \<Rightarrow>
          (case unescapeFields fields of Panic p \<Rightarrow> Panic p | Ret fs \<Rightarrow> Ret (Inr fs)))"

section \<open>Types, values and the loader\<close>

text \<open>
  What \<^verbatim>\<open>reflect.Type\<close> tells the loader about a destination: the type's identity (its
  name, empty for a type literal), its kind and its element, key and field types.
  A field carries its name, the result of \<^verbatim>\<open>f.Tag.Lookup("env")\<close>, \<^verbatim>\<open>f.Anonymous\<close> and
  its type.
\<close>

datatype ty =
    TBasic string
  | TPtr ty
  | TSlice string ty
  | TMap string ty ty
  | TStruct string "fld list"
and fld = Fld (fname: string) (ftag: "string option") (fanon: bool) (ftype: ty)

text \<open>
  Values. A pointer is nil or owns its pointee: the destination is a tree, with no
  storage shared between two fields. A value of a non-composite type is carried as the
  payload chosen by the function that parsed it, the empty payload being the zero value;
  a nil slice and an empty one, a nil map and an empty one, are not told apart. A map is
  its list of entries, with distinct keys.
\<close>

datatype val =
    VBasic string
  | VNil
  | VPtr val
  | VSlice "val list"
  | VMap "(val \<times> val) list"
  | VStruct "val list"

text \<open>The zero value of a type, as \<^verbatim>\<open>reflect.New\<close> and \<^verbatim>\<open>reflect.MakeSlice\<close> create it.\<close>

primrec zero :: "ty \<Rightarrow> val" and zeroFld :: "fld \<Rightarrow> val" where
  "zero (TBasic n) = VBasic []"
| "zero (TPtr t) = VNil"
| "zero (TSlice n t) = VSlice []"
| "zero (TMap n k v) = VMap []"
| "zero (TStruct n fs) = VStruct (map zeroFld fs)"
| "zeroFld (Fld nm tag anon t) = zero t"

text \<open>
  Errors. \<open>Custom\<close> is an error returned by a \<^verbatim>\<open>parseFunc\<close> or by \<^verbatim>\<open>UnmarshalText\<close>;
  the other constructors are the \<^verbatim>\<open>errors.New\<close> and \<^verbatim>\<open>fmt.Errorf\<close> of env.go:
  \<open>FieldErr\<close> is \<^verbatim>\<open>"%q: %w"\<close>, \<open>CannotParseMap\<close> is \<^verbatim>\<open>"cannot parse %s: %w"\<close>,
  \<open>CannotParseAs\<close> is \<^verbatim>\<open>"cannot parse %q as %s: %w"\<close>, \<open>ItemErr\<close> is \<^verbatim>\<open>"item #%d: %w"\<close>,
  \<open>KeyErr\<close> and \<open>ValueErr\<close> are the two messages of \<^verbatim>\<open>parseAndSetMap\<close>.
\<close>

datatype err =
    ErrInvalidDst
  | ErrUnexportedDst
  | VariableMissing
  | NotSupported ty
  | TokErr tokErr
  | Custom string
  | FieldErr string err
  | CannotParseMap ty err
  | CannotParseAs string ty err
  | ItemErr nat err
  | KeyErr string ty err
  | ValueErr string ty err

datatype loadError = LoadError "err list"

type_synonym parseFunc = "string \<Rightarrow> string + val"

text \<open>
  \<^verbatim>\<open>UnmarshalText\<close> as the loader sees it: from the text and the value stored at the
  location, the error returned (if any) and the value stored there afterwards.
\<close>

type_synonym unmarshalFunc = "string \<Rightarrow> val \<Rightarrow> string option \<times> val"

text \<open>
  The loader holds the registry. An entry holds a function returning a value of the type
  it is registered for (\<^verbatim>\<open>rv.Set\<close> accepts no other).
\<close>

record loader =
  parsers :: "ty \<Rightarrow> parseFunc option"

text \<open>
  What the loader reads from the process and the Go runtime: \<^verbatim>\<open>os.Environ()\<close>, each
  \<^verbatim>\<open>name=value\<close> already split at its first \<^verbatim>\<open>=\<close>; for each type, the \<^verbatim>\<open>UnmarshalText\<close>
  of its method set, when it has one; and the order in which \<^verbatim>\<open>range\<close> visits the entries
  of a map, which Go leaves unspecified.
\<close>

record proc =
  environ :: "(string \<times> string) list"
  unmarshalText :: "ty \<Rightarrow> unmarshalFunc option"
  rangeOrder :: "(string \<times> string) list \<Rightarrow> (string \<times> string) list"

definition hasParser :: "loader \<Rightarrow> ty \<Rightarrow> bool" where
  "hasParser l rt \<longleftrightarrow> \<not> Option.is_none (parsers l rt)"

definition LookupEnv :: "proc \<Rightarrow> string \<Rightarrow> string option" where
  "LookupEnv p name = map_of (environ p) name"

definition HasPrefix :: "string \<Rightarrow> string \<Rightarrow> bool" where
  "HasPrefix s pfx \<longleftrightarrow> length s \<ge> length pfx \<and> take (length pfx) s = pfx"

definition varsPrefixed :: "proc \<Rightarrow> string \<Rightarrow> (string \<times> string) list" where
  "varsPrefixed p pfx =
     foldl (\<lambda>vars (name, value). if HasPrefix name pfx then AList.update name value vars else vars)
       [] (environ p)"

text \<open>\<^verbatim>\<open>unicode.IsUpper\<close> on the Latin-1 range.\<close>

definition isUpper :: "char \<Rightarrow> bool" where
  "isUpper r \<longleftrightarrow> (let n = (of_char r :: nat)
     in (0x41 \<le> n \<and> n \<le> 0x5A) \<or> (0xC0 \<le> n \<and> n \<le> 0xD6) \<or> (0xD8 \<le> n \<and> n \<le> 0xDE))"

definition isExported :: "fld \<Rightarrow> bool res" where
  "isExported f = (case fname f of [] \<Rightarrow> Panic EmptyFieldName | r # _ \<Rightarrow> Ret (isUpper r))"

text \<open>
  \<^verbatim>\<open>fv.CanInterface()\<close> and \<^verbatim>\<open>fv.CanSet()\<close> for a field of a struct that is addressable
  and was not itself reached through an unexported field (\<^verbatim>\<open>loadStruct\<close> has checked both
  when it reads them): reflect marks exactly the unexported fields read-only.
\<close>

definition canSet :: "fld \<Rightarrow> bool" where
  "canSet f = (case fname f of [] \<Rightarrow> False | r # _ \<Rightarrow> isUpper r)"

definition isStruct :: "ty \<Rightarrow> bool" where
  "isStruct t = (case t of TStruct _ _ \<Rightarrow> True | _ \<Rightarrow> False)"

text \<open>
  \<^verbatim>\<open>follow\<close>: the type and value at the end of the pointer chain and the number of levels
  followed. A nil pointer is set to a new zero value, which \<^verbatim>\<open>rv.Set\<close> refuses with a
  panic when \<open>rv\<close> is not settable; the pointee of a pointer is always settable.
  \<open>rewrap n v\<close> is the value of the location \<open>follow\<close> started from once its leaf holds \<open>v\<close>.
\<close>

fun follow :: "bool \<Rightarrow> ty \<Rightarrow> val \<Rightarrow> (ty \<times> val \<times> nat) res" where
  "follow settable (TPtr t) (VPtr v) =
     (case follow True t v of Panic x \<Rightarrow> Panic x | Ret (t', v', n) \<Rightarrow> Ret (t', v', Suc n))"
| "follow settable (TPtr t) rv =
     (if \<not> settable then Panic SetUnaddressable
      else case follow True t (zero t) of Panic x \<Rightarrow> Panic x | Ret (t', v', n) \<Rightarrow> Ret (t', v', Suc n))"
| "follow settable t rv = Ret (t, rv, 0)"

definition rewrap :: "nat \<Rightarrow> val \<Rightarrow> val" where
  "rewrap n v = (VPtr ^^ n) v"

text \<open>
  \<^verbatim>\<open>textUnmarshaler\<close>: the capability of the value's own type first, then, if the value is
  addressable, that of the pointer to it.
\<close>

definition textUnmarshaler :: "proc \<Rightarrow> ty \<Rightarrow> bool \<Rightarrow> unmarshalFunc option" where
  "textUnmarshaler p rt canAddr =
     (case unmarshalText p rt of
        Some tu \<Rightarrow> Some tu
      | None \<Rightarrow> if \<not> canAddr then None else unmarshalText p (TPtr rt))"

section \<open>The value binder\<close>

text \<open>
  \<^verbatim>\<open>parseAndSetValue\<close> and \<^verbatim>\<open>parseAndSetSlice\<close>; \<open>setItems\<close> is the loop of the latter over
  the elements of the new slice, \<open>i\<close> the index of the next one. Every location they are
  given is addressable: a settable field, the pointee of a pointer, an element of a slice
  or a new value from \<^verbatim>\<open>reflect.New\<close>.
\<close>

fun parseAndSetValue :: "loader \<Rightarrow> proc \<Rightarrow> string \<Rightarrow> ty \<Rightarrow> val \<Rightarrow> (err option \<times> val) res"
and parseAndSetSlice :: "loader \<Rightarrow> proc \<Rightarrow> string \<Rightarrow> string \<Rightarrow> ty \<Rightarrow> val \<Rightarrow> (err option \<times> val) res"
and setItems :: "loader \<Rightarrow> proc \<Rightarrow> ty \<Rightarrow> nat \<Rightarrow> string list \<Rightarrow> (err option \<times> val list) res"
where
  "parseAndSetValue l p s rt rv =
     (case textUnmarshaler p rt True of
        Some tu \<Rightarrow> (case tu s rv of (e, rv') \<Rightarrow> Ret (map_option Custom e, rv'))
      | None \<Rightarrow>
          (case parsers l rt of
             Some f \<Rightarrow> (case f s of Inl e \<Rightarrow> Ret (Some (Custom e), rv) | Inr v \<Rightarrow> Ret (None, v))
           | None \<Rightarrow>
               (case rt of
                  TSlice n et \<Rightarrow> parseAndSetSlice l p s n et rv
                | _ \<Rightarrow> Ret (Some (NotSupported rt), rv))))"
| "parseAndSetSlice l p s n et rv =
     (case splitSlice s of
        Panic x \<Rightarrow> Panic x
      | Ret (Inl e) \<Rightarrow> Ret (Some (TokErr e), rv)
      | Ret (Inr fs) \<Rightarrow>
          (case setItems l p et 0 fs of
             Panic x \<Rightarrow> Panic x
           | Ret (Some e, sl) \<Rightarrow> Ret (Some e, rv)
           | Ret (None, sl) \<Rightarrow> Ret (None, VSlice sl)))"
| "setItems l p et i [] = Ret (None, [])"
| "setItems l p et i (s # ss) =
     (case parseAndSetValue l p s et (zero et) of
        Panic x \<Rightarrow> Panic x
      | Ret (Some e, v) \<Rightarrow> Ret (Some (ItemErr i e), [])
      | Ret (None, v) \<Rightarrow>
          (case setItems l p et (i + 1) ss of
             Panic x \<Rightarrow> Panic x
           | Ret (Some e, vs) \<Rightarrow> Ret (Some e, [])
           | Ret (None, vs) \<Rightarrow> Ret (None, v # vs)))"

declare parseAndSetValue.simps [simp del] parseAndSetSlice.simps [simp del]

section \<open>The associative-key scanner\<close>

text \<open>
  The three lines \<^verbatim>\<open>parseAndSetMap\<close> runs for the key and again for the value of every
  entry: \<^verbatim>\<open>x := reflect.New(t).Elem()\<close>, then \<^verbatim>\<open>parseAndSetValue(s, follow(x))\<close>; the result
  is the error and the value of \<open>x\<close> afterwards.
\<close>

definition parseNew :: "loader \<Rightarrow> proc \<Rightarrow> string \<Rightarrow> ty \<Rightarrow> (err option \<times> val) res" where
  "parseNew l p s t =
     (case follow True t (zero t) of
        Panic x \<Rightarrow> Panic x
      | Ret (t', v', n) \<Rightarrow>
          (case parseAndSetValue l p s t' v' of
             Panic x \<Rightarrow> Panic x
           | Ret (e, v'') \<Rightarrow> Ret (e, rewrap n v'')))"

text \<open>
  \<^verbatim>\<open>dstMap.SetMapIndex(key, val)\<close>: an entry with an equal key is replaced. A key of
  pointer type points to storage that \<^verbatim>\<open>follow\<close> has just allocated, so it is equal to no
  key already in the map.
\<close>

definition SetMapIndex :: "ty \<Rightarrow> (val \<times> val) list \<Rightarrow> val \<Rightarrow> val \<Rightarrow> (val \<times> val) list" where
  "SetMapIndex kt dstMap key val =
     (case kt of TPtr _ \<Rightarrow> dstMap @ [(key, val)] | _ \<Rightarrow> AList.update key val dstMap)"

text \<open>The loop of \<^verbatim>\<open>parseAndSetMap\<close> over the variables still to visit.\<close>

fun mapLoop :: "loader \<Rightarrow> proc \<Rightarrow> string \<Rightarrow> ty \<Rightarrow> ty \<Rightarrow> (string \<times> string) list
    \<Rightarrow> (val \<times> val) list \<Rightarrow> (err option \<times> (val \<times> val) list) res" where
  "mapLoop l p mapName kt vt [] dstMap = Ret (None, dstMap)"
| "mapLoop l p mapName kt vt ((varName, valStr) # rest) dstMap =
     (let keyStr = drop (length mapName) varName
      in case parseNew l p keyStr kt of
           Panic x \<Rightarrow> Panic x
         | Ret (Some e, key) \<Rightarrow> Ret (Some (KeyErr keyStr kt e), dstMap)
         | Ret (None, key) \<Rightarrow>
             (case parseNew l p valStr vt of
                Panic x \<Rightarrow> Panic x
              | Ret (Some e, val) \<Rightarrow> Ret (Some (ValueErr valStr vt e), dstMap)
              | Ret (None, val) \<Rightarrow>
                  mapLoop l p mapName kt vt rest (SetMapIndex kt dstMap key val)))"

definition parseAndSetMap :: "loader \<Rightarrow> proc \<Rightarrow> string \<Rightarrow> ty \<Rightarrow> ty \<Rightarrow> val
    \<Rightarrow> (err option \<times> val) res" where
  "parseAndSetMap l p mapName kt vt rv =
     (case mapLoop l p mapName kt vt (rangeOrder p (varsPrefixed p mapName)) [] of
        Panic x \<Rightarrow> Panic x
      | Ret (Some e, dstMap) \<Rightarrow> Ret (Some e, rv)
      | Ret (None, dstMap) \<Rightarrow> Ret (None, VMap dstMap))"

section \<open>Binding one variable\<close>

definition loadVar :: "loader \<Rightarrow> proc \<Rightarrow> ty \<Rightarrow> val \<Rightarrow> string \<Rightarrow> (err option \<times> val) res" where
  "loadVar l p rt rv name =
     (case (if \<not> hasParser l rt then follow True rt rv else Ret (rt, rv, 0)) of
        Panic x \<Rightarrow> Panic x
      | Ret (t, v, n) \<Rightarrow>
          (case (textUnmarshaler p t True, t) of
             (None, TMap nm kt vt) \<Rightarrow>
               (case parseAndSetMap l p name kt vt v of
                  Panic x \<Rightarrow> Panic x
                | Ret (Some e, v') \<Rightarrow> Ret (Some (CannotParseMap t e), rewrap n v')
                | Ret (None, v') \<Rightarrow> Ret (None, rewrap n v'))
           | _ \<Rightarrow>
               (case LookupEnv p name of
                  None \<Rightarrow> Ret (Some VariableMissing, rewrap n v)
                | Some s \<Rightarrow>
                    (case parseAndSetValue l p s t v of
                       Panic x \<Rightarrow> Panic x
                     | Ret (Some e, v') \<Rightarrow> Ret (Some (CannotParseAs s t e), rewrap n v')
                     | Ret (None, v') \<Rightarrow> Ret (None, rewrap n v')))))"

section \<open>The record walker\<close>

text \<open>The values of the fields of a struct value, in declaration order.\<close>

definition structVals :: "val \<Rightarrow> val list" where
  "structVals v = (case v of VStruct vs \<Rightarrow> vs | _ \<Rightarrow> [])"

text \<open>
  \<^verbatim>\<open>loadStruct\<close>; \<open>settable\<close> says whether \<open>rv\<close> is addressable and settable, which the
  value \<^verbatim>\<open>reflect.ValueOf(dst)\<close> is not and every field is. \<open>loadFields\<close> is its loop over the
  fields still to visit, with their values; it returns the errors appended and the values
  of those fields afterwards.
\<close>

function loadStruct :: "loader \<Rightarrow> proc \<Rightarrow> bool \<Rightarrow> ty \<Rightarrow> val \<Rightarrow> string \<Rightarrow> (err list \<times> val) res"
and loadFields :: "loader \<Rightarrow> proc \<Rightarrow> string \<Rightarrow> fld list \<Rightarrow> val list \<Rightarrow> (err list \<times> val list) res"
where
  "loadStruct l p settable rt rv prefix =
     (case follow settable rt rv of
        Panic x \<Rightarrow> Panic x
      | Ret (t, v, n) \<Rightarrow>
          (case t of
             TStruct nm fs \<Rightarrow>
               (if \<not> (settable \<or> n > 0) then Ret ([ErrInvalidDst], rewrap n v)
                else case loadFields l p prefix fs (structVals v) of
                       Panic x \<Rightarrow> Panic x
                     | Ret (errs, vs) \<Rightarrow> Ret (errs, rewrap n (VStruct vs)))
           | _ \<Rightarrow> Ret ([ErrInvalidDst], rewrap n v)))"
| "loadFields l p prefix [] vs = Ret ([], vs)"
| "loadFields l p prefix (f # fs) [] = Ret ([], [])"
| "loadFields l p prefix (f # fs) (fv # vs) =
     (let hasTag = (ftag f \<noteq> None);
          tag = (case ftag f of None \<Rightarrow> [] | Some tg \<Rightarrow> tg);
          isAnonStruct = (isStruct (ftype f) \<and> fanon f)
      in if \<not> hasTag \<and> \<not> isAnonStruct then
           (case loadFields l p prefix fs vs of
              Panic x \<Rightarrow> Panic x
            | Ret (errs, vs') \<Rightarrow> Ret (errs, fv # vs'))
         else case isExported f of
           Panic x \<Rightarrow> Panic x
         | Ret False \<Rightarrow>
             (case loadFields l p prefix fs vs of
                Panic x \<Rightarrow> Panic x
              | Ret (errs, vs') \<Rightarrow> Ret (FieldErr (fname f) ErrUnexportedDst # errs, fv # vs'))
         | Ret True \<Rightarrow>
             if \<not> canSet f then
               (case loadFields l p prefix fs vs of
                  Panic x \<Rightarrow> Panic x
                | Ret (errs, vs') \<Rightarrow> Ret (FieldErr (fname f) ErrInvalidDst # errs, fv # vs'))
             else
               (let name = prefix @ tag;
                    isTU = (\<not> Option.is_none (textUnmarshaler p (ftype f) True))
                in if isStruct (ftype f) \<and> \<not> hasParser l (ftype f) \<and> \<not> isTU then
                     (case loadStruct l p True (ftype f) fv name of
                        Panic x \<Rightarrow> Panic x
                      | Ret (errs1, fv') \<Rightarrow>
                          (case loadFields l p prefix fs vs of
                             Panic x \<Rightarrow> Panic x
                           | Ret (errs, vs') \<Rightarrow> Ret (errs1 @ errs, fv' # vs')))
                   else
                     (case loadVar l p (ftype f) fv name of
                        Panic x \<Rightarrow> Panic x
                      | Ret (e, fv') \<Rightarrow>
                          (case loadFields l p prefix fs vs of
                             Panic x \<Rightarrow> Panic x
                           | Ret (errs, vs') \<Rightarrow>
                               Ret ((case e of None \<Rightarrow> [] | Some e' \<Rightarrow> [FieldErr name e']) @ errs,
                                    fv' # vs')))))"
  by pat_completeness auto
termination
proof (relation "measure (\<lambda>x. case x of
          Inl (l, p, settable, rt, rv, prefix) \<Rightarrow> 2 * size rt + 1
        | Inr (l, p, prefix, fs, vs) \<Rightarrow> 2 * size_list size fs)", goal_cases)
  case 1
  show ?case by simp
next
  case (2 l p settable rt rv prefix x2 t y v n nm fs)
  have le: "size t' \<le> size rt'" if "follow s' rt' rv' = Ret (t', v', n')"
    for s' rt' rv' t' v' n'
    using that
    by (induction s' rt' rv' arbitrary: t' v' n' rule: follow.induct)
       (fastforce split: res.splits if_splits)+
  from 2 have "size (TStruct nm fs) \<le> size rt"
    using le [of settable rt rv "TStruct nm fs" v n] by simp
  then show ?case by simp
next
  case (3 l p prefix f)
  then show ?case by (cases f) simp
next
  case (4 l p prefix f)
  then show ?case by (cases f) simp
next
  case (5 l p prefix f)
  then show ?case by (cases f) simp
next
  case (6 l p prefix f)
  then show ?case by (cases f) simp
next
  case (7 l p prefix f)
  then show ?case by (cases f) simp
next
  case (8 l p prefix f)
  then show ?case by (cases f) simp
qed

declare loadStruct.simps [simp del] loadFields.simps(3) [simp del]

text \<open>
  \<^verbatim>\<open>(l *loader) Load\<close>. The destination \<open>dst\<close> is given by its type and its value; the
  result is the error returned and the destination afterwards.
\<close>

definition Load :: "loader \<Rightarrow> proc \<Rightarrow> ty \<Rightarrow> val \<Rightarrow> string \<Rightarrow> (loadError option \<times> val) res" where
  "Load l p dt dst prefix =
     (case loadStruct l p False dt dst prefix of
        Panic x \<Rightarrow> Panic x
      | Ret (errs, dst') \<Rightarrow> Ret (if length errs > 0 then Some (LoadError errs) else None, dst'))"

section \<open>Example loaders, environments and destinations\<close>

text \<open>\<^verbatim>\<open>parseString\<close> returns its argument; the registry of \<open>stringLoader\<close> holds it alone.\<close>

definition parseString :: parseFunc where
  "parseString s = Inr (VBasic s)"

definition stringT :: ty where
  "stringT = TBasic ''string''"

definition stringLoader :: loader where
  "stringLoader = \<lparr>parsers = [stringT \<mapsto> parseString]\<rparr>"

text \<open>
  A process with the given environment in which no type has an \<^verbatim>\<open>UnmarshalText\<close> method and
  \<^verbatim>\<open>range\<close> visits a map in the order its keys were inserted.
\<close>

definition procOf :: "(string \<times> string) list \<Rightarrow> proc" where
  "procOf env = \<lparr>environ = env, unmarshalText = (\<lambda>t. None), rangeOrder = (\<lambda>vars. vars)\<rparr>"

text \<open>
  \<^verbatim>\<open>struct { Bar string `env:"BAR"`; Foobar string }\<close>, the second field without a tag.
\<close>

definition barField :: fld where
  "barField = Fld ''Bar'' (Some ''BAR'') False stringT"

definition foobarField :: fld where
  "foobarField = Fld ''Foobar'' None False stringT"

text \<open>\<^verbatim>\<open>Foo string `env:"FOO"`\<close>, and \<^verbatim>\<open>Ptr **string `env:"PTR"`\<close>.\<close>

definition fooField :: fld where
  "fooField = Fld ''Foo'' (Some ''FOO'') False stringT"

definition ptrField :: fld where
  "ptrField = Fld ''Ptr'' (Some ''PTR'') False (TPtr (TPtr stringT))"

text \<open>
  \<^verbatim>\<open>type Inner struct { Foo string `env:"FOO"` }\<close> and the field
  \<^verbatim>\<open>Inner *Inner `env:"INNER_"`\<close>.
\<close>

definition innerT :: ty where
  "innerT = TStruct ''Inner'' [fooField]"

definition innerPtrField :: fld where
  "innerPtrField = Fld ''Inner'' (Some ''INNER_'') False (TPtr innerT)"

text \<open>A loader whose registry holds a parser for \<^verbatim>\<open>*Inner\<close>, as \<^verbatim>\<open>AddParser\<close> can register.\<close>

definition innerPtrLoader :: loader where
  "innerPtrLoader = \<lparr>parsers = [TPtr innerT \<mapsto> (\<lambda>s. Inr (VPtr (VStruct [VBasic s])))]\<rparr>"

text \<open>
  The types \<^verbatim>\<open>speed\<close> and \<^verbatim>\<open>customMap\<close> of the tests, each with \<^verbatim>\<open>UnmarshalText\<close> on its
  pointer; here the method stores the text it is given and returns no error.
\<close>

definition speedT :: ty where
  "speedT = TBasic ''speed''"

definition customMapT :: ty where
  "customMapT = TMap ''customMap'' stringT stringT"

definition storeText :: unmarshalFunc where
  "storeText s v = (None, VBasic s)"

definition storeEntry :: unmarshalFunc where
  "storeEntry s v = (None, VMap [(VBasic ''text'', VBasic s)])"

definition tuProc :: "(string \<times> string) list \<Rightarrow> proc" where
  "tuProc env = \<lparr>environ = env,
     unmarshalText = [TPtr speedT \<mapsto> storeText, TPtr customMapT \<mapsto> storeEntry],
     rangeOrder = (\<lambda>vars. vars)\<rparr>"

text \<open>A loader whose registry also holds a parser for \<^verbatim>\<open>speed\<close>, one that rejects every text.\<close>

definition speedLoader :: loader where
  "speedLoader = \<lparr>parsers = [stringT \<mapsto> parseString, speedT \<mapsto> (\<lambda>s. Inl ''rejected'')]\<rparr>"

text \<open>
  A loader with a parser for \<^verbatim>\<open>int\<close> that, like \<^verbatim>\<open>strconv.Atoi\<close>, reads \<^verbatim>\<open>07\<close> and \<^verbatim>\<open>7\<close> as
  the same number: the payload is the text without its leading zeros.
\<close>

definition intT :: ty where
  "intT = TBasic ''int''"

definition parseLeadingZeros :: parseFunc where
  "parseLeadingZeros s = Inr (VBasic (dropWhile (\<lambda>c. c = CHR ''0'') s))"

definition intLoader :: loader where
  "intLoader = \<lparr>parsers = [stringT \<mapsto> parseString, intT \<mapsto> parseLeadingZeros]\<rparr>"

text \<open>\<^verbatim>\<open>Slice []string `env:"SLICE"`\<close>.\<close>

definition sliceField :: fld where
  "sliceField = Fld ''Slice'' (Some ''SLICE'') False (TSlice [] stringT)"

text \<open>\<^verbatim>\<open>Inner Inner `env:"INNER_"`\<close>, a nested record.\<close>

definition innerField :: fld where
  "innerField = Fld ''Inner'' (Some ''INNER_'') False innerT"

section \<open>Properties of the loops\<close>

text \<open>
  A field that ends in an escaped backslash passes the tokenizer, and \<^verbatim>\<open>unescapeSliceField\<close>
  then reads one rune past its end: on the list made of the letter a and two backslashes
  the program panics. A pointer that can be set is followed without panic.
\<close>

lemma unescape_reads_past_end:
  "tokenizeSliceString [CHR ''a'', backslash, backslash] = Inr [[CHR ''a'', backslash, backslash]]
   \<and> unescapeSliceField [CHR ''a'', backslash, backslash] = Panic IndexOutOfRange
   \<and> splitSlice [CHR ''a'', backslash, backslash] = Panic IndexOutOfRange"
  by code_simp

lemma follow_settable_returns: "\<exists>t' v' n. follow True t v = Ret (t', v', n)"
proof (induction t arbitrary: v)
  case (TPtr t)
  show ?case
  proof (cases v)
    case (VPtr w)
    from TPtr [of w] show ?thesis using VPtr by auto
  qed (use TPtr [of "zero t"] in auto)
qed simp_all

lemma follow_nil_chain:
  assumes "case leaf of TPtr _ \<Rightarrow> False | _ \<Rightarrow> True"
  shows "follow True ((TPtr ^^ k) leaf) (zero ((TPtr ^^ k) leaf)) = Ret (leaf, zero leaf, k)"
proof (induction k)
  case 0
  from assms show ?case by (cases leaf) simp_all
next
  case (Suc k)
  then show ?case by simp
qed

lemma setItems_ok:
  "list_all2 (\<lambda>f v. parseAndSetValue l p f et (zero et) = Ret (None, v)) fs vs
   \<Longrightarrow> setItems l p et i fs = Ret (None, vs)"
  by (induction arbitrary: i rule: list_all2_induct) auto

lemma setItems_okD:
  "setItems l p et i fs = Ret (None, vs)
   \<Longrightarrow> list_all2 (\<lambda>f v. parseAndSetValue l p f et (zero et) = Ret (None, v)) fs vs"
  by (induction fs arbitrary: i vs) (auto split: res.splits option.splits prod.splits)

lemma update_fresh: "k \<notin> fst ` set m \<Longrightarrow> AList.update k v m = m @ [(k, v)]"
  by (induction m) auto

lemma foldl_SetMapIndex_distinct:
  "distinct (map fst (m0 @ kvs)) \<Longrightarrow>
   foldl (\<lambda>m (k, v). SetMapIndex kt m k v) m0 kvs = m0 @ kvs"
proof (induction kvs arbitrary: m0)
  case Nil
  then show ?case by simp
next
  case (Cons kv kvs)
  obtain k v where kv: "kv = (k, v)" by (cases kv)
  from Cons.prems kv have fresh: "k \<notin> fst ` set m0" by auto
  then have step: "SetMapIndex kt m0 k v = m0 @ [(k, v)]"
    by (simp add: SetMapIndex_def update_fresh split: ty.splits)
  from Cons.prems kv have "distinct (map fst ((m0 @ [(k, v)]) @ kvs))" by auto
  from Cons.IH [OF this] show ?case using kv step by simp
qed

lemma foldl_SetMapIndex_ptr:
  "foldl (\<lambda>m (k, v). SetMapIndex (TPtr t) m k v) m0 kvs = m0 @ kvs"
  by (induction kvs arbitrary: m0) (auto simp: SetMapIndex_def)

lemma mapLoop_ok:
  "list_all2 (\<lambda>(varName, valStr) (k, v).
       parseNew l p (drop (length mapName) varName) kt = Ret (None, k)
       \<and> parseNew l p valStr vt = Ret (None, v)) vars kvs
   \<Longrightarrow> mapLoop l p mapName kt vt vars m0
       = Ret (None, foldl (\<lambda>m (k, v). SetMapIndex kt m k v) m0 kvs)"
  by (induction arbitrary: m0 rule: list_all2_induct) auto

lemma mapLoop_okD:
  "mapLoop l p mapName kt vt vars m0 = Ret (None, m)
   \<Longrightarrow> \<exists>kvs. list_all2 (\<lambda>(varName, valStr) (k, v).
                 parseNew l p (drop (length mapName) varName) kt = Ret (None, k)
                 \<and> parseNew l p valStr vt = Ret (None, v)) vars kvs
             \<and> m = foldl (\<lambda>m (k, v). SetMapIndex kt m k v) m0 kvs"
proof (induction vars arbitrary: m0)
  case Nil
  then show ?case by auto
next
  case (Cons x vars)
  obtain varName valStr where x: "x = (varName, valStr)" by (cases x)
  from Cons.prems obtain k v where
    k: "parseNew l p (drop (length mapName) varName) kt = Ret (None, k)" and
    v: "parseNew l p valStr vt = Ret (None, v)" and
    rest: "mapLoop l p mapName kt vt vars (SetMapIndex kt m0 k v) = Ret (None, m)"
    unfolding x by (auto simp: Let_def split: res.splits option.splits prod.splits)
  from Cons.IH [OF rest] obtain kvs where
    kvs: "list_all2 (\<lambda>(varName, valStr) (k, v).
                 parseNew l p (drop (length mapName) varName) kt = Ret (None, k)
                 \<and> parseNew l p valStr vt = Ret (None, v)) vars kvs"
    and m: "m = foldl (\<lambda>m (k, v). SetMapIndex kt m k v) (SetMapIndex kt m0 k v) kvs"
    by blast
  show ?case
    by (rule exI [of _ "(k, v) # kvs"]) (simp add: x k v kvs m)
qed

lemma loadFields_cons:
  "loadFields l p prefix (f # fs) (fv # vs) =
     (case loadFields l p prefix [f] [fv] of
        Panic x \<Rightarrow> Panic x
      | Ret (e1, v1) \<Rightarrow>
          (case loadFields l p prefix fs vs of
             Panic x \<Rightarrow> Panic x
           | Ret (e2, v2) \<Rightarrow> Ret (e1 @ e2, v1 @ v2)))"
proof (cases "\<not> ftag f \<noteq> None \<and> \<not> (isStruct (ftype f) \<and> fanon f)")
  case True
  show ?thesis
    unfolding loadFields.simps(3) Let_def if_P [OF True]
    by (simp split: res.split prod.split)
next
  case tagged: False
  show ?thesis
  proof (cases "isExported f")
    case (Panic x)
    show ?thesis
      unfolding loadFields.simps(3) Let_def if_not_P [OF tagged] Panic
      by simp
  next
    case (Ret b)
    show ?thesis
    proof (cases b)
      case False
      with Ret have unexported: "isExported f = Ret False" by simp
      show ?thesis
        unfolding loadFields.simps(3) Let_def if_not_P [OF tagged] unexported
        by (simp split: res.split prod.split)
    next
      case True
      with Ret have exported: "isExported f = Ret True" by simp
      show ?thesis
      proof (cases "\<not> canSet f")
        case True
        show ?thesis
          unfolding loadFields.simps(3) Let_def if_not_P [OF tagged] exported if_P [OF True]
          by (simp split: res.split prod.split)
      next
        case settable: False
        show ?thesis
        proof (cases "isStruct (ftype f) \<and> \<not> hasParser l (ftype f)
                      \<and> \<not> \<not> Option.is_none (textUnmarshaler p (ftype f) True)")
          case recurse: True
          show ?thesis
            unfolding loadFields.simps(3) Let_def if_not_P [OF tagged] exported
              if_not_P [OF settable] if_P [OF recurse]
            by (cases "loadStruct l p True (ftype f) fv
                         (prefix @ (case ftag f of None \<Rightarrow> [] | Some tg \<Rightarrow> tg))")
               (simp_all split: res.split prod.split)
        next
          case bind: False
          show ?thesis
            unfolding loadFields.simps(3) Let_def if_not_P [OF tagged] exported
              if_not_P [OF settable] if_not_P [OF bind]
            by (cases "loadVar l p (ftype f) fv
                         (prefix @ (case ftag f of None \<Rightarrow> [] | Some tg \<Rightarrow> tg))")
               (simp_all split: res.split prod.split)
        qed
      qed
    qed
  qed
qed

lemma loadFields_append:
  "length fs1 = length vs1 \<Longrightarrow>
   loadFields l p prefix (fs1 @ fs2) (vs1 @ vs2) =
     (case loadFields l p prefix fs1 vs1 of
        Panic x \<Rightarrow> Panic x
      | Ret (e1, v1) \<Rightarrow>
          (case loadFields l p prefix fs2 vs2 of
             Panic x \<Rightarrow> Panic x
           | Ret (e2, v2) \<Rightarrow> Ret (e1 @ e2, v1 @ v2)))"
proof (induction fs1 arbitrary: vs1)
  case Nil
  then show ?case by (simp split: res.split prod.split)
next
  case (Cons f fs1)
  then obtain fv vs1' where vs1: "vs1 = fv # vs1'" and len: "length fs1 = length vs1'"
    by (cases vs1) auto
  have "loadFields l p prefix ((f # fs1) @ fs2) ((fv # vs1') @ vs2)
        = loadFields l p prefix (f # (fs1 @ fs2)) (fv # (vs1' @ vs2))" by simp
  also have "\<dots> = (case loadFields l p prefix [f] [fv] of
        Panic x \<Rightarrow> Panic x
      | Ret (e1, v1) \<Rightarrow>
          (case loadFields l p prefix (fs1 @ fs2) (vs1' @ vs2) of
             Panic x \<Rightarrow> Panic x
           | Ret (e2, v2) \<Rightarrow> Ret (e1 @ e2, v1 @ v2)))"
    by (rule loadFields_cons)
  finally show ?case
    unfolding vs1
    by (simp add: Cons.IH [OF len] loadFields_cons [of l p prefix f fs1 fv vs1']
             split: res.split prod.split)
qed

lemma loadFields_single_bind:
  assumes tag: "ftag f = Some tag"
    and exported: "isExported f = Ret True"
    and bind: "\<not> (isStruct (ftype f) \<and> \<not> hasParser l (ftype f)
                   \<and> \<not> \<not> Option.is_none (textUnmarshaler p (ftype f) True))"
  shows "loadFields l p prefix [f] [fv] =
     (case loadVar l p (ftype f) fv (prefix @ tag) of
        Panic x \<Rightarrow> Panic x
      | Ret (e, fv') \<Rightarrow> Ret ((case e of None \<Rightarrow> [] | Some e' \<Rightarrow> [FieldErr (prefix @ tag) e']), [fv']))"
proof -
  have tagged: "\<not> (\<not> Some tag \<noteq> None \<and> \<not> (isStruct (ftype f) \<and> fanon f))"
    by simp
  from exported have settable: "\<not> \<not> canSet f"
    by (auto simp: isExported_def canSet_def split: list.splits)
  show ?thesis
    unfolding loadFields.simps(3) Let_def tag option.case if_not_P [OF tagged] exported
      if_not_P [OF settable] if_not_P [OF bind]
    by (simp split: res.split prod.split)
qed

lemma isExported_upper: "fname f = r # rest \<Longrightarrow> isUpper r \<Longrightarrow> isExported f = Ret True"
  by (simp add: isExported_def)

lemma rewrap_Suc: "rewrap (Suc n) v = VPtr (rewrap n v)"
  by (simp add: rewrap_def)

lemma loadVar_lookup:
  assumes "\<not> hasParser l rt"
    and "follow True rt rv = Ret (t, v, n)"
    and "case t of TMap _ _ _ \<Rightarrow> False | _ \<Rightarrow> True"
  shows "loadVar l p rt rv name =
     (case LookupEnv p name of
        None \<Rightarrow> Ret (Some VariableMissing, rewrap n v)
      | Some s \<Rightarrow>
          (case parseAndSetValue l p s t v of
             Panic x \<Rightarrow> Panic x
           | Ret (Some e, v') \<Rightarrow> Ret (Some (CannotParseAs s t e), rewrap n v')
           | Ret (None, v') \<Rightarrow> Ret (None, rewrap n v')))"
  using assms
  by (cases t) (auto simp: loadVar_def split: option.split)

lemma foldl_SetMapIndex_keys:
  "fst ` set (foldl (\<lambda>m (k, v). SetMapIndex kt m k v) m0 kvs) = fst ` set m0 \<union> fst ` set kvs"
proof (induction kvs arbitrary: m0)
  case Nil
  then show ?case by simp
next
  case (Cons kv kvs)
  obtain k v where kv: "kv = (k, v)" by (cases kv)
  have "fst ` set (SetMapIndex kt m0 k v) = insert k (fst ` set m0)"
    by (cases kt) (auto simp: SetMapIndex_def AList.dom_update)
  then show ?case
    by (simp add: kv Cons.IH)
qed

lemma foldl_SetMapIndex_distinct_keys:
  assumes "case kt of TPtr _ \<Rightarrow> False | _ \<Rightarrow> True"
  shows "distinct (map fst m0) \<Longrightarrow>
    distinct (map fst (foldl (\<lambda>m (k, v). SetMapIndex kt m k v) m0 kvs))"
proof (induction kvs arbitrary: m0)
  case Nil
  then show ?case by simp
next
  case (Cons kv kvs)
  obtain k v where kv: "kv = (k, v)" by (cases kv)
  from assms have "SetMapIndex kt m0 k v = AList.update k v m0"
    by (cases kt) (simp_all add: SetMapIndex_def)
  with Cons.prems have "distinct (map fst (SetMapIndex kt m0 k v))"
    by (simp add: AList.distinct_update)
  from Cons.IH [OF this] show ?case by (simp add: kv)
qed

lemma varsPrefixed_filter:
  assumes "distinct (map fst (environ p))"
  shows "varsPrefixed p pfx = filter (\<lambda>(name, value). HasPrefix name pfx) (environ p)"
proof -
  let ?F = "\<lambda>vars (name, value). if HasPrefix name pfx then AList.update name value vars else vars"
  let ?keep = "\<lambda>(name, value). HasPrefix name pfx"
  have "distinct (map fst (acc @ env)) \<Longrightarrow> foldl ?F acc env = acc @ filter ?keep env"
    for acc env :: "(string \<times> string) list"
  proof (induction env arbitrary: acc)
    case Nil
    then show ?case by simp
  next
    case (Cons x env)
    obtain name val where x: "x = (name, val)" by (cases x)
    from Cons.prems x have fresh: "name \<notin> fst ` set acc" by auto
    show ?case
    proof (cases "HasPrefix name pfx")
      case True
      from Cons.prems x have "distinct (map fst ((acc @ [(name, val)]) @ env))" by auto
      from Cons.IH [OF this] show ?thesis
        using True x by (simp add: update_fresh [OF fresh])
    next
      case False
      from Cons.prems x have "distinct (map fst (acc @ env))" by auto
      from Cons.IH [OF this] show ?thesis
        using False x by simp
    qed
  qed
  from this [of "[]" "environ p"] assms show ?thesis
    by (simp add: varsPrefixed_def)
qed

lemma parseAndSetMap_ok:
  "parseAndSetMap l p name kt vt rv = Ret (None, rv')
   \<longleftrightarrow> (\<exists>kvs. list_all2 (\<lambda>(varName, valStr) (k, v).
                 parseNew l p (drop (length name) varName) kt = Ret (None, k)
                 \<and> parseNew l p valStr vt = Ret (None, v))
               (rangeOrder p (varsPrefixed p name)) kvs
             \<and> rv' = VMap (foldl (\<lambda>m (k, v). SetMapIndex kt m k v) [] kvs))"
proof
  assume "parseAndSetMap l p name kt vt rv = Ret (None, rv')"
  then obtain m where loop: "mapLoop l p name kt vt (rangeOrder p (varsPrefixed p name)) []
        = Ret (None, m)" and rv': "rv' = VMap m"
    by (auto simp: parseAndSetMap_def split: res.splits option.splits prod.splits)
  from mapLoop_okD [OF loop] rv'
  show "\<exists>kvs. list_all2 (\<lambda>(varName, valStr) (k, v).
                 parseNew l p (drop (length name) varName) kt = Ret (None, k)
                 \<and> parseNew l p valStr vt = Ret (None, v))
               (rangeOrder p (varsPrefixed p name)) kvs
             \<and> rv' = VMap (foldl (\<lambda>m (k, v). SetMapIndex kt m k v) [] kvs)"
    by blast
next
  assume "\<exists>kvs. list_all2 (\<lambda>(varName, valStr) (k, v).
                 parseNew l p (drop (length name) varName) kt = Ret (None, k)
                 \<and> parseNew l p valStr vt = Ret (None, v))
               (rangeOrder p (varsPrefixed p name)) kvs
             \<and> rv' = VMap (foldl (\<lambda>m (k, v). SetMapIndex kt m k v) [] kvs)"
  then obtain kvs where kvs: "list_all2 (\<lambda>(varName, valStr) (k, v).
                 parseNew l p (drop (length name) varName) kt = Ret (None, k)
                 \<and> parseNew l p valStr vt = Ret (None, v))
               (rangeOrder p (varsPrefixed p name)) kvs"
    and rv': "rv' = VMap (foldl (\<lambda>m (k, v). SetMapIndex kt m k v) [] kvs)"
    by blast
  from mapLoop_ok [OF kvs, of "[]"] rv'
  show "parseAndSetMap l p name kt vt rv = Ret (None, rv')"
    by (simp add: parseAndSetMap_def)
qed

lemma parseAndSetMap_err: "parseAndSetMap l p name kt vt rv = Ret (Some e, rv') \<Longrightarrow> rv' = rv"
  by (auto simp: parseAndSetMap_def split: res.splits option.splits prod.splits)

lemma parseAndSetSlice_err: "parseAndSetSlice l p s n et rv = Ret (Some e, rv') \<Longrightarrow> rv' = rv"
  by (auto simp: parseAndSetSlice.simps split: res.splits option.splits prod.splits sum.splits)

lemma parseAndSetSlice_ok:
  "parseAndSetSlice l p s n et rv = Ret (None, rv')
   \<longleftrightarrow> (\<exists>fs vs. splitSlice s = Ret (Inr fs)
         \<and> list_all2 (\<lambda>f v. parseAndSetValue l p f et (zero et) = Ret (None, v)) fs vs
         \<and> rv' = VSlice vs)"
proof
  assume "parseAndSetSlice l p s n et rv = Ret (None, rv')"
  then obtain fs vs where "splitSlice s = Ret (Inr fs)"
    and "setItems l p et 0 fs = Ret (None, vs)" and "rv' = VSlice vs"
    by (auto simp: parseAndSetSlice.simps split: res.splits option.splits prod.splits sum.splits)
  then show "\<exists>fs vs. splitSlice s = Ret (Inr fs)
         \<and> list_all2 (\<lambda>f v. parseAndSetValue l p f et (zero et) = Ret (None, v)) fs vs
         \<and> rv' = VSlice vs"
    using setItems_okD by blast
next
  assume "\<exists>fs vs. splitSlice s = Ret (Inr fs)
         \<and> list_all2 (\<lambda>f v. parseAndSetValue l p f et (zero et) = Ret (None, v)) fs vs
         \<and> rv' = VSlice vs"
  then obtain fs vs where "splitSlice s = Ret (Inr fs)"
    and "list_all2 (\<lambda>f v. parseAndSetValue l p f et (zero et) = Ret (None, v)) fs vs"
    and "rv' = VSlice vs" by blast
  then show "parseAndSetSlice l p s n et rv = Ret (None, rv')"
    using setItems_ok [of l p et fs vs 0] by (simp add: parseAndSetSlice.simps)
qed

lemma follow_chain:
  assumes "case leaf of TPtr _ \<Rightarrow> False | _ \<Rightarrow> True"
  shows "\<exists>lv. follow True ((TPtr ^^ k) leaf) fv = Ret (leaf, lv, k)"
proof (induction k arbitrary: fv)
  case 0
  from assms show ?case by (cases leaf) simp_all
next
  case (Suc k)
  show ?case
  proof (cases fv)
    case (VPtr w)
    from Suc [of w] show ?thesis using VPtr by auto
  qed (use Suc [of "zero ((TPtr ^^ k) leaf)"] in auto)
qed

lemma follow_complete_chain:
  assumes "case leaf of TPtr _ \<Rightarrow> False | _ \<Rightarrow> True"
  shows "follow True ((TPtr ^^ k) leaf) ((VPtr ^^ k) lv) = Ret (leaf, lv, k)"
proof (induction k)
  case 0
  from assms show ?case by (cases leaf) simp_all
next
  case (Suc k)
  then show ?case by simp
qed

lemma tokenizeLoop_append:
  "tokenizeLoop q esc sb fs (xs @ ys) =
     (case tokenizeLoop q esc sb fs xs of
        Inl e \<Rightarrow> Inl e
      | Inr (q', esc', sb', fs') \<Rightarrow> tokenizeLoop q' esc' sb' fs' ys)"
  by (induction q esc sb fs xs rule: tokenizeLoop.induct) simp_all

lemma tokenizeLoop_fields_nonempty:
  "tokenizeLoop q esc sb fs xs = Inr (q', esc', sb', fs') \<Longrightarrow> [] \<notin> set fs \<Longrightarrow> [] \<notin> set fs'"
  by (induction q esc sb fs xs rule: tokenizeLoop.induct) (auto split: if_splits)

lemma isSpace_plain:
  "isSpace r \<Longrightarrow> r \<noteq> comma \<and> r \<noteq> dquote \<and> r \<noteq> backslash \<and> r \<noteq> nul"
  by (auto simp: isSpace_def)

lemma tokenizeLoop_spaces:
  "list_all isSpace ws \<Longrightarrow> tokenizeLoop False False sb fs ws = Inr (False, False, sb @ ws, fs)"
  by (induction ws arbitrary: sb) (auto dest: isSpace_plain)

lemma findEnd_spaces:
  "n \<le> length ws \<Longrightarrow> list_all isSpace ws \<Longrightarrow> findEnd ws n = - 1"
  by (induction n) (auto simp: list_all_length)

lemma unescape_spaces: "list_all isSpace ws \<Longrightarrow> unescapeSliceField ws = Ret []"
  by (simp add: unescapeSliceField_def findEnd_spaces unescapeLoop.simps)

section \<open>The list grammar\<close>

text \<open>
  C6. On the inputs the specification lists, tokenizing and unescaping give the listed
  results: \<^verbatim>\<open>"x"\<close> gives \<^verbatim>\<open>[x]\<close>, the empty string gives no field, \<^verbatim>\<open>a,b\<close> and \<^verbatim>\<open>a, b\<close>
  give \<^verbatim>\<open>[a, b]\<close>, \<^verbatim>\<open>a,b, "c,d"\<close> gives \<^verbatim>\<open>[a, b, c,d]\<close>; \<^verbatim>\<open>,,\<close> fails with
  EmptyUnquotedField, \<^verbatim>\<open>"x\<close> with UnbalancedQuotes and a lone backslash with
  TrailingEscape.
\<close>

theorem C6_list_grammar_examples:
  "splitSlice [dquote, CHR ''x'', dquote] = Ret (Inr [''x''])
   \<and> splitSlice [] = Ret (Inr [])
   \<and> splitSlice ''a,b'' = Ret (Inr [''a'', ''b''])
   \<and> splitSlice ''a, b'' = Ret (Inr [''a'', ''b''])
   \<and> splitSlice (''a,b, '' @ [dquote] @ ''c,d'' @ [dquote]) = Ret (Inr [''a'', ''b'', ''c,d''])
   \<and> splitSlice '',,'' = Ret (Inl EmptyUnquotedField)
   \<and> splitSlice [dquote, CHR ''x''] = Ret (Inl UnbalancedQuotes)
   \<and> splitSlice [backslash] = Ret (Inl TrailingEscape)"
  by code_simp

text \<open>
  C4, as the code has it. The tokenizer tests the length of a field before any trimming.
  A field of no rune in front of a separator, that is a separator at the start of the
  input or directly after another separator, makes list parsing fail with
  EmptyUnquotedField, and no field the tokenizer returns is empty. A field that is not
  empty but made of whitespace alone is kept by the tokenizer, before a separator and at
  the end of the input, and unescaped to the empty string: it is accepted as an empty
  element, as the explicit empty quoted span is.
\<close>

theorem C4_empty_fields:
  "(tokenizeSliceString s = Inr fs \<longrightarrow> [] \<notin> set fs)
   \<and> tokenizeSliceString (comma # post) = Inl EmptyUnquotedField
   \<and> (tokenizeLoop False False [] [] pre = Inr (False, False, sb, fs0) \<longrightarrow>
        tokenizeSliceString (pre @ comma # comma # post) = Inl EmptyUnquotedField)
   \<and> (ws \<noteq> [] \<and> list_all isSpace ws \<longrightarrow>
        tokenizeLoop False False [] fs0 (ws @ [comma]) = Inr (False, False, [], fs0 @ [ws])
        \<and> tokenizeSliceString ws = Inr [ws]
        \<and> unescapeSliceField ws = Ret []
        \<and> splitSlice ws = Ret (Inr [[]]))
   \<and> tokenizeSliceString [dquote, dquote] = Inr [[dquote, dquote]]
   \<and> unescapeSliceField [dquote, dquote] = Ret []"
proof (intro conjI impI)
  assume ok: "tokenizeSliceString s = Inr fs"
  then obtain q esc sb' fs' where
    loop: "tokenizeLoop False False [] [] s = Inr (q, esc, sb', fs')"
    and fs: "fs = (if length sb' > 0 then fs' @ [sb'] else fs')"
    by (auto simp: tokenizeSliceString_def Let_def split: sum.splits prod.splits if_splits)
  from tokenizeLoop_fields_nonempty [OF loop] have "[] \<notin> set fs'" by simp
  with fs show "[] \<notin> set fs" by (auto split: if_splits)
next
  show "tokenizeSliceString (comma # post) = Inl EmptyUnquotedField"
    by (simp add: tokenizeSliceString_def)
next
  assume pre: "tokenizeLoop False False [] [] pre = Inr (False, False, sb, fs0)"
  have "tokenizeLoop False False [] [] (pre @ comma # comma # post) = Inl EmptyUnquotedField"
    by (simp add: tokenizeLoop_append pre)
  then show "tokenizeSliceString (pre @ comma # comma # post) = Inl EmptyUnquotedField"
    by (simp add: tokenizeSliceString_def)
next
  assume ws: "ws \<noteq> [] \<and> list_all isSpace ws"
  then show "tokenizeLoop False False [] fs0 (ws @ [comma]) = Inr (False, False, [], fs0 @ [ws])"
    by (simp add: tokenizeLoop_append tokenizeLoop_spaces)
  from ws show tok: "tokenizeSliceString ws = Inr [ws]"
    by (simp add: tokenizeSliceString_def tokenizeLoop_spaces)
  from ws show un: "unescapeSliceField ws = Ret []"
    by (simp add: unescape_spaces)
  from tok un show "splitSlice ws = Ret (Inr [[]])"
    by (simp add: splitSlice_def)
next
  show "tokenizeSliceString [dquote, dquote] = Inr [[dquote, dquote]]"
    by (simp add: tokenizeSliceString_def)
next
  show "unescapeSliceField [dquote, dquote] = Ret []"
    by code_simp
qed

theorem C4_empty_fields_witness:
  "tokenizeSliceString (''a, ,b'' @ [comma] @ [dquote, dquote])
     = Inr [''a'', '' '', ''b'', [dquote, dquote]]
   \<and> [] \<notin> set [''a'', '' '', ''b'', [dquote, dquote]]
   \<and> tokenizeLoop False False [] [] ''a'' = Inr (False, False, ''a'', [])
   \<and> tokenizeSliceString (''a'' @ comma # comma # ''b'') = Inl EmptyUnquotedField
   \<and> '' '' \<noteq> [] \<and> list_all isSpace '' ''
   \<and> tokenizeLoop False False [] [''a''] ('' '' @ [comma]) = Inr (False, False, [], [''a''] @ ['' ''])
   \<and> splitSlice '' '' = Ret (Inr [[]])"
proof -
  have a: "tokenizeSliceString (''a, ,b'' @ [comma] @ [dquote, dquote])
     = Inr [''a'', '' '', ''b'', [dquote, dquote]]"
    by code_simp
  have b: "tokenizeLoop False False [] [] ''a'' = Inr (False, False, ''a'', [])"
    by simp
  have c: "'' '' \<noteq> [] \<and> list_all isSpace '' ''"
    by (simp add: isSpace_def)
  note T = C4_empty_fields [of "''a, ,b'' @ [comma] @ [dquote, dquote]"
      "[''a'', '' '', ''b'', [dquote, dquote]]" _ "''a''" "''a''" "[]"]
  have r1: "[] \<notin> set [''a'', '' '', ''b'', [dquote, dquote]]"
    using T a by blast
  have r2: "tokenizeSliceString (''a'' @ comma # comma # ''b'') = Inl EmptyUnquotedField"
    using C4_empty_fields [of _ _ "''b''" "''a''" "''a''" "[]"] b by blast
  have r3: "tokenizeLoop False False [] [''a''] ('' '' @ [comma])
        = Inr (False, False, [], [''a''] @ ['' ''])
      \<and> splitSlice '' '' = Ret (Inr [[]])"
    using C4_empty_fields [of _ _ _ _ _ "[''a'']" "'' ''"] c by blast
  show ?thesis
    using a b c r1 r2 r3 by blast
qed

text \<open>
  C4 as stated makes every field that is empty after trimming and holds no quoted span an
  error. On \<^verbatim>\<open>a, ,b\<close> the middle field, a single space, is such a field, and the list is
  accepted with an empty second element; the tests of the repository expect the same of
  a list with the fields \<^verbatim>\<open>"", ,\<close> in it.
\<close>

theorem C4_counterexample:
  "tokenizeSliceString ''a, ,b'' = Inr [''a'', '' '', ''b'']
   \<and> unescapeSliceField '' '' = Ret []
   \<and> splitSlice ''a, ,b'' = Ret (Inr [''a'', [], ''b''])"
  by code_simp

section \<open>The record walker\<close>

text \<open>
  C8. A field with no \<^verbatim>\<open>env\<close> tag that is not anonymous is skipped: the walk over one
  such field returns no error and the field's value as it was, whatever the loader, the
  environment and the value are; in a longer walk it adds nothing to the errors of the
  fields after it.
\<close>

theorem C8_untagged_field_skipped:
  "ftag f = None \<and> \<not> fanon f \<longrightarrow>
     loadFields l p prefix [f] [fv] = Ret ([], [fv])
     \<and> loadFields l p prefix (f # fs) (fv # vs) =
         (case loadFields l p prefix fs vs of
            Panic x \<Rightarrow> Panic x
          | Ret (errs, vs') \<Rightarrow> Ret (errs, fv # vs'))"
  by (simp add: loadFields.simps(3))

theorem C8_untagged_field_skipped_witness:
  "ftag foobarField = None \<and> \<not> fanon foobarField
   \<and> loadFields stringLoader (procOf []) ''EXAMPLE_'' [foobarField] [VBasic ''kept'']
       = Ret ([], [VBasic ''kept''])
   \<and> loadFields stringLoader (procOf []) ''EXAMPLE_'' [foobarField, barField]
         [VBasic ''kept'', VBasic []]
       = Ret ([FieldErr ''EXAMPLE_BAR'' VariableMissing], [VBasic ''kept'', VBasic []])"
  using C8_untagged_field_skipped [of foobarField stringLoader "procOf []" "''EXAMPLE_''"
      "VBasic ''kept''" "[barField]" "[VBasic []]"]
  by code_simp

text \<open>
  The walk when nothing panics. \<^verbatim>\<open>Load\<close> returns no error exactly when the walk collected
  none, and otherwise one \<^verbatim>\<open>loadError\<close> wrapping all of them. The errors of a walk over
  several fields are the errors of the first fields followed by the errors of the fields
  after them, which are visited whatever the first fields reported. A field that is bound
  contributes at most one error; a field that is recursed into contributes the errors of
  the walk over its own fields. A panic in any field ends the walk, and \<^verbatim>\<open>Load\<close> with it.
\<close>

lemma walk_errors_concatenate:
  "Load l p dt dst prefix =
     (case loadStruct l p False dt dst prefix of
        Panic x \<Rightarrow> Panic x
      | Ret (es, dst') \<Rightarrow> Ret (if es = [] then None else Some (LoadError es), dst'))
   \<and> (length fs1 = length vs1 \<longrightarrow>
        loadFields l p prefix (fs1 @ fs2) (vs1 @ vs2) =
          (case loadFields l p prefix fs1 vs1 of
             Panic x \<Rightarrow> Panic x
           | Ret (e1, v1) \<Rightarrow>
               (case loadFields l p prefix fs2 vs2 of
                  Panic x \<Rightarrow> Panic x
                | Ret (e2, v2) \<Rightarrow> Ret (e1 @ e2, v1 @ v2))))
   \<and> (\<not> (isStruct (ftype f) \<and> \<not> hasParser l (ftype f)
            \<and> textUnmarshaler p (ftype f) True = None)
        \<and> loadFields l p prefix [f] [fv] = Ret (es, vs) \<longrightarrow> length es \<le> 1)"
proof (intro conjI impI)
  show "Load l p dt dst prefix =
     (case loadStruct l p False dt dst prefix of
        Panic x \<Rightarrow> Panic x
      | Ret (es, dst') \<Rightarrow> Ret (if es = [] then None else Some (LoadError es), dst'))"
    by (simp add: Load_def split: res.split prod.split)
next
  assume "length fs1 = length vs1"
  then show "loadFields l p prefix (fs1 @ fs2) (vs1 @ vs2) =
          (case loadFields l p prefix fs1 vs1 of
             Panic x \<Rightarrow> Panic x
           | Ret (e1, v1) \<Rightarrow>
               (case loadFields l p prefix fs2 vs2 of
                  Panic x \<Rightarrow> Panic x
                | Ret (e2, v2) \<Rightarrow> Ret (e1 @ e2, v1 @ v2)))"
    by (rule loadFields_append)
next
  assume a: "\<not> (isStruct (ftype f) \<and> \<not> hasParser l (ftype f)
            \<and> textUnmarshaler p (ftype f) True = None)
        \<and> loadFields l p prefix [f] [fv] = Ret (es, vs)"
  then have bind: "\<not> (isStruct (ftype f) \<and> \<not> hasParser l (ftype f)
                   \<and> \<not> \<not> Option.is_none (textUnmarshaler p (ftype f) True))"
    and ret: "loadFields l p prefix [f] [fv] = Ret (es, vs)"
    by (simp_all add: Option.is_none_def)
  show "length es \<le> 1"
  proof (cases "\<not> ftag f \<noteq> None \<and> \<not> (isStruct (ftype f) \<and> fanon f)")
    case True
    from ret show ?thesis
      unfolding loadFields.simps(3) Let_def if_P [OF True] by simp
  next
    case tagged: False
    show ?thesis
    proof (cases "isExported f")
      case (Panic x)
      from ret show ?thesis
        unfolding loadFields.simps(3) Let_def if_not_P [OF tagged] Panic by simp
    next
      case (Ret b)
      show ?thesis
      proof (cases b)
        case False
        with Ret have unexported: "isExported f = Ret False" by simp
        from ret show ?thesis
          unfolding loadFields.simps(3) Let_def if_not_P [OF tagged] unexported by auto
      next
        case True
        with Ret have exported: "isExported f = Ret True" by simp
        then have settable: "\<not> \<not> canSet f"
          by (auto simp: isExported_def canSet_def split: list.splits)
        from ret show ?thesis
          unfolding loadFields.simps(3) Let_def if_not_P [OF tagged] exported
            if_not_P [OF settable] if_not_P [OF bind]
          by (auto split: res.splits prod.splits option.splits)
      qed
    qed
  qed
qed

lemma walk_errors_concatenate_example:
  "length [fooField] = length [VBasic []]
   \<and> loadFields stringLoader (procOf [(''EXAMPLE_BAR'', ''orange'')]) ''EXAMPLE_''
        ([fooField] @ [barField, ptrField]) ([VBasic []] @ [VBasic [], VNil])
      = Ret ([FieldErr ''EXAMPLE_FOO'' VariableMissing] @ [FieldErr ''EXAMPLE_PTR'' VariableMissing],
             [VBasic []] @ [VBasic ''orange'', VPtr (VPtr (VBasic []))])
   \<and> \<not> isStruct (ftype fooField)
   \<and> length [FieldErr ''EXAMPLE_FOO'' VariableMissing] \<le> (1::nat)
   \<and> Load stringLoader (procOf [(''EXAMPLE_BAR'', ''orange'')])
        (TPtr (TStruct ''config'' [fooField, barField, ptrField]))
        (VPtr (VStruct [VBasic [], VBasic [], VNil])) ''EXAMPLE_''
      = Ret (Some (LoadError [FieldErr ''EXAMPLE_FOO'' VariableMissing,
                              FieldErr ''EXAMPLE_PTR'' VariableMissing]),
             VPtr (VStruct [VBasic [], VBasic ''orange'', VPtr (VPtr (VBasic []))]))"
proof -
  let ?p = "procOf [(''EXAMPLE_BAR'', ''orange'')]"
  have first: "loadFields stringLoader ?p ''EXAMPLE_'' [fooField] [VBasic []]
      = Ret ([FieldErr ''EXAMPLE_FOO'' VariableMissing], [VBasic []])"
    by code_simp
  have rest: "loadFields stringLoader ?p ''EXAMPLE_'' [barField, ptrField] [VBasic [], VNil]
      = Ret ([FieldErr ''EXAMPLE_PTR'' VariableMissing],
             [VBasic ''orange'', VPtr (VPtr (VBasic []))])"
    by code_simp
  have leaf: "\<not> isStruct (ftype fooField)"
    by (simp add: isStruct_def fooField_def stringT_def)
  have walk: "loadStruct stringLoader ?p False
        (TPtr (TStruct ''config'' [fooField, barField, ptrField]))
        (VPtr (VStruct [VBasic [], VBasic [], VNil])) ''EXAMPLE_''
      = Ret ([FieldErr ''EXAMPLE_FOO'' VariableMissing, FieldErr ''EXAMPLE_PTR'' VariableMissing],
             VPtr (VStruct [VBasic [], VBasic ''orange'', VPtr (VPtr (VBasic []))]))"
    by code_simp
  show ?thesis
    using walk_errors_concatenate [of stringLoader ?p
      "TPtr (TStruct ''config'' [fooField, barField, ptrField])"
      "VPtr (VStruct [VBasic [], VBasic [], VNil])" "''EXAMPLE_''"
      "[fooField]" "[VBasic []]" "[barField, ptrField]" "[VBasic [], VNil]"
      fooField "VBasic []" "[FieldErr ''EXAMPLE_FOO'' VariableMissing]" "[VBasic []]"]
    by (simp add: first rest walk leaf)
qed

lemma loadFields_single_recurse:
  assumes tagged: "ftag f \<noteq> None \<or> fanon f"
    and exported: "isExported f = Ret True"
    and recurse: "isStruct (ftype f) \<and> \<not> hasParser l (ftype f)
                   \<and> \<not> \<not> Option.is_none (textUnmarshaler p (ftype f) True)"
  shows "loadFields l p prefix [f] [fv] =
     (case loadStruct l p True (ftype f) fv
             (prefix @ (case ftag f of None \<Rightarrow> [] | Some tg \<Rightarrow> tg)) of
        Panic x \<Rightarrow> Panic x
      | Ret (es, fv') \<Rightarrow> Ret (es, [fv']))"
proof -
  from tagged recurse
  have t: "\<not> (\<not> ftag f \<noteq> None \<and> \<not> (isStruct (ftype f) \<and> fanon f))"
    by auto
  from exported have settable: "\<not> \<not> canSet f"
    by (auto simp: isExported_def canSet_def split: list.splits)
  show ?thesis
    unfolding loadFields.simps(3) Let_def if_not_P [OF t] exported
      if_not_P [OF settable] if_P [OF recurse]
    by (simp split: res.split prod.split)
qed

text \<open>
  A walk that recurses: with \<^verbatim>\<open>APP_STRING\<close> alone in the environment, the nested record
  reports its own missing field under its qualified name, between the fields around it.
\<close>

lemma walk_recurses_example:
  "Load stringLoader (procOf [(''APP_STRING'', ''s'')])
      (TPtr (TStruct ''config''
         [Fld ''Name'' (Some ''STRING'') False stringT, innerField, fooField]))
      (VPtr (VStruct [VBasic [], VStruct [VBasic []], VBasic []])) ''APP_''
     = Ret (Some (LoadError [FieldErr ''APP_INNER_FOO'' VariableMissing,
                             FieldErr ''APP_FOO'' VariableMissing]),
            VPtr (VStruct [VBasic ''s'', VStruct [VBasic []], VBasic []]))"
  by code_simp

text \<open>
  C1. For every destination \<^verbatim>\<open>Load\<close> should return either no error or one aggregate error
  holding an error for each failing field. It does not on the destination
  \<^verbatim>\<open>struct { Slice []string `env:"SLICE"`; Foo string `env:"FOO"` }\<close> when \<^verbatim>\<open>FOO\<close> is unset and
  \<^verbatim>\<open>SLICE\<close> is the letter a followed by two backslashes: the tokenizer accepts the list,
  \<^verbatim>\<open>unescapeSliceField\<close> reads one rune past the end of its only field, and the panic ends
  \<^verbatim>\<open>Load\<close> before the missing \<^verbatim>\<open>FOO\<close> is reported. With \<^verbatim>\<open>SLICE\<close> set to the letter alone the
  same call returns the aggregate error for \<^verbatim>\<open>FOO\<close>.
\<close>

theorem C1_load_panics:
  "Load stringLoader (procOf [(''SLICE'', [CHR ''a'', backslash, backslash])])
      (TPtr (TStruct ''config'' [sliceField, fooField]))
      (VPtr (VStruct [VSlice [], VBasic []])) []
     = Panic IndexOutOfRange
   \<and> Load stringLoader (procOf [(''SLICE'', ''a'')])
      (TPtr (TStruct ''config'' [sliceField, fooField]))
      (VPtr (VStruct [VSlice [], VBasic []])) []
     = Ret (Some (LoadError [FieldErr ''FOO'' VariableMissing]),
            VPtr (VStruct [VSlice [VBasic ''a''], VBasic []]))"
  by code_simp

section \<open>The value binder\<close>

text \<open>
  C2. \<^verbatim>\<open>parseAndSetValue\<close> dispatches in a fixed order. First the text-unmarshal capability,
  looked for on the value's own type and then, the value being addressable, on the pointer
  to it: if there is one, it alone decides the result, whatever the registry holds and
  whatever the kind of the type. Second the registry entry of the exact type. Third, for a
  slice type, the tokenizer, each element of the new slice being bound by
  \<^verbatim>\<open>parseAndSetValue\<close> from its own field. Otherwise the "not supported" error.
\<close>

theorem C2_dispatch_order:
  "(textUnmarshaler p rt canAddr =
      (case unmarshalText p rt of
         Some tu \<Rightarrow> Some tu
       | None \<Rightarrow> if canAddr then unmarshalText p (TPtr rt) else None))
   \<and> (textUnmarshaler p rt True = Some tu \<longrightarrow>
        parseAndSetValue l p s rt rv = Ret (map_option Custom (fst (tu s rv)), snd (tu s rv)))
   \<and> (textUnmarshaler p rt True = None \<and> parsers l rt = Some f \<longrightarrow>
        parseAndSetValue l p s rt rv =
          (case f s of Inl e \<Rightarrow> Ret (Some (Custom e), rv) | Inr v \<Rightarrow> Ret (None, v)))
   \<and> (textUnmarshaler p rt True = None \<and> parsers l rt = None \<and> rt = TSlice n et \<longrightarrow>
        parseAndSetValue l p s rt rv =
          (case splitSlice s of
             Panic x \<Rightarrow> Panic x
           | Ret (Inl e) \<Rightarrow> Ret (Some (TokErr e), rv)
           | Ret (Inr fs) \<Rightarrow>
               (case setItems l p et 0 fs of
                  Panic x \<Rightarrow> Panic x
                | Ret (Some e, sl) \<Rightarrow> Ret (Some e, rv)
                | Ret (None, sl) \<Rightarrow> Ret (None, VSlice sl))))
   \<and> (setItems l p et i fs = Ret (None, vs) \<longleftrightarrow>
        list_all2 (\<lambda>f v. parseAndSetValue l p f et (zero et) = Ret (None, v)) fs vs)
   \<and> (textUnmarshaler p rt True = None \<and> parsers l rt = None
        \<and> (case rt of TSlice n et \<Rightarrow> False | _ \<Rightarrow> True) \<longrightarrow>
        parseAndSetValue l p s rt rv = Ret (Some (NotSupported rt), rv))"
proof (intro conjI impI)
  show "textUnmarshaler p rt canAddr =
      (case unmarshalText p rt of
         Some tu \<Rightarrow> Some tu
       | None \<Rightarrow> if canAddr then unmarshalText p (TPtr rt) else None)"
    by (simp add: textUnmarshaler_def split: option.split)
next
  assume "textUnmarshaler p rt True = Some tu"
  then show "parseAndSetValue l p s rt rv
      = Ret (map_option Custom (fst (tu s rv)), snd (tu s rv))"
    by (simp add: parseAndSetValue.simps split: prod.split)
next
  assume "textUnmarshaler p rt True = None \<and> parsers l rt = Some f"
  then show "parseAndSetValue l p s rt rv =
          (case f s of Inl e \<Rightarrow> Ret (Some (Custom e), rv) | Inr v \<Rightarrow> Ret (None, v))"
    by (simp add: parseAndSetValue.simps)
next
  assume h: "textUnmarshaler p rt True = None \<and> parsers l rt = None \<and> rt = TSlice n et"
  then have a: "textUnmarshaler p (TSlice n et) True = None"
    and b: "parsers l (TSlice n et) = None" and c: "rt = TSlice n et" by auto
  show "parseAndSetValue l p s rt rv =
          (case splitSlice s of
             Panic x \<Rightarrow> Panic x
           | Ret (Inl e) \<Rightarrow> Ret (Some (TokErr e), rv)
           | Ret (Inr fs) \<Rightarrow>
               (case setItems l p et 0 fs of
                  Panic x \<Rightarrow> Panic x
                | Ret (Some e, sl) \<Rightarrow> Ret (Some e, rv)
                | Ret (None, sl) \<Rightarrow> Ret (None, VSlice sl)))"
    unfolding c by (simp add: parseAndSetValue.simps parseAndSetSlice.simps a b)
next
  show "setItems l p et i fs = Ret (None, vs) \<longleftrightarrow>
        list_all2 (\<lambda>f v. parseAndSetValue l p f et (zero et) = Ret (None, v)) fs vs"
    using setItems_ok [of l p et fs vs i] setItems_okD [of l p et i fs vs] by blast
next
  assume "textUnmarshaler p rt True = None \<and> parsers l rt = None
        \<and> (case rt of TSlice n et \<Rightarrow> False | _ \<Rightarrow> True)"
  then show "parseAndSetValue l p s rt rv = Ret (Some (NotSupported rt), rv)"
    by (cases rt) (simp_all add: parseAndSetValue.simps)
qed

theorem C2_dispatch_order_witness:
  "textUnmarshaler (tuProc []) speedT True = Some storeText
   \<and> parseAndSetValue speedLoader (tuProc []) ''40mph'' speedT (VBasic [])
       = Ret (None, VBasic ''40mph'')
   \<and> textUnmarshaler (tuProc []) stringT True = None
   \<and> parsers speedLoader stringT = Some parseString
   \<and> parseAndSetValue speedLoader (tuProc []) ''40mph'' stringT (VBasic [])
       = Ret (None, VBasic ''40mph'')
   \<and> textUnmarshaler (tuProc []) (TSlice [] stringT) True = None
   \<and> parsers speedLoader (TSlice [] stringT) = None
   \<and> parseAndSetValue speedLoader (tuProc []) ''a, b'' (TSlice [] stringT) (VSlice [VBasic ''old''])
       = Ret (None, VSlice [VBasic ''a'', VBasic ''b''])
   \<and> textUnmarshaler (tuProc []) intT True = None
   \<and> parsers speedLoader intT = None
   \<and> parseAndSetValue speedLoader (tuProc []) ''7'' intT (VBasic [])
       = Ret (Some (NotSupported intT), VBasic [])"
proof -
  let ?p = "tuProc []"
  have tu1: "textUnmarshaler ?p speedT True = Some storeText"
    by (simp add: textUnmarshaler_def tuProc_def speedT_def customMapT_def)
  have tu2: "textUnmarshaler ?p stringT True = None"
    by (simp add: textUnmarshaler_def tuProc_def speedT_def customMapT_def stringT_def)
  have tu3: "textUnmarshaler ?p (TSlice [] stringT) True = None"
    by (simp add: textUnmarshaler_def tuProc_def speedT_def customMapT_def stringT_def)
  have tu4: "textUnmarshaler ?p intT True = None"
    by (simp add: textUnmarshaler_def tuProc_def speedT_def customMapT_def intT_def)
  have p2: "parsers speedLoader stringT = Some parseString"
    by (simp add: speedLoader_def speedT_def stringT_def)
  have p3: "parsers speedLoader (TSlice [] stringT) = None"
    by (simp add: speedLoader_def speedT_def stringT_def)
  have p4: "parsers speedLoader intT = None"
    by (simp add: speedLoader_def speedT_def stringT_def intT_def)
  have split: "splitSlice ''a, b'' = Ret (Inr [''a'', ''b''])"
    by code_simp
  have elem: "parseAndSetValue speedLoader ?p s stringT rv = Ret (None, VBasic s)" for s rv
  proof -
    have "parseAndSetValue speedLoader ?p s stringT rv =
        (case parseString s of Inl e \<Rightarrow> Ret (Some (Custom e), rv) | Inr v \<Rightarrow> Ret (None, v))"
      using C2_dispatch_order [of ?p stringT True storeText speedLoader s rv parseString]
        tu2 p2 by blast
    then show ?thesis by (simp add: parseString_def)
  qed
  have r1: "parseAndSetValue speedLoader ?p ''40mph'' speedT (VBasic [])
      = Ret (map_option Custom (fst (storeText ''40mph'' (VBasic []))),
             snd (storeText ''40mph'' (VBasic [])))"
    using C2_dispatch_order [of ?p speedT True storeText speedLoader "''40mph''" "VBasic []"]
      tu1 by blast
  have items: "setItems speedLoader ?p stringT 0 [''a'', ''b'']
      = Ret (None, [VBasic ''a'', VBasic ''b''])"
    using C2_dispatch_order [of ?p stringT True storeText speedLoader _ _ _ _ stringT 0
        "[''a'', ''b'']" "[VBasic ''a'', VBasic ''b'']"]
    by (simp add: elem)
  have r3: "parseAndSetValue speedLoader ?p ''a, b'' (TSlice [] stringT) (VSlice [VBasic ''old''])
      = (case splitSlice ''a, b'' of
             Panic x \<Rightarrow> Panic x
           | Ret (Inl e) \<Rightarrow> Ret (Some (TokErr e), VSlice [VBasic ''old''])
           | Ret (Inr fs) \<Rightarrow>
               (case setItems speedLoader ?p stringT 0 fs of
                  Panic x \<Rightarrow> Panic x
                | Ret (Some e, sl) \<Rightarrow> Ret (Some e, VSlice [VBasic ''old''])
                | Ret (None, sl) \<Rightarrow> Ret (None, VSlice sl)))"
    using C2_dispatch_order [of ?p "TSlice [] stringT" True storeText speedLoader "''a, b''"
        "VSlice [VBasic ''old'']" parseString "[]" stringT]
      tu3 p3 by blast
  have r4: "parseAndSetValue speedLoader ?p ''7'' intT (VBasic [])
      = Ret (Some (NotSupported intT), VBasic [])"
  proof -
    have "case intT of TSlice n et \<Rightarrow> False | _ \<Rightarrow> True" by (simp add: intT_def)
    with tu4 p4 show ?thesis
      using C2_dispatch_order [of ?p intT True storeText speedLoader "''7''" "VBasic []"]
      by blast
  qed
  show ?thesis
    by (simp add: tu1 tu2 tu3 tu4 p2 p3 p4 elem r1 r3 r4 split items storeText_def)
qed

section \<open>Indirection\<close>

text \<open>
  C3, as the code has it. Take an exported, tagged field declared as one or more levels of
  pointer to a leaf type (no pointer, no map) whose declared type has no registry entry,
  whatever it holds before: nil, part of a chain or a whole chain. \<^verbatim>\<open>loadVar\<close> follows the
  chain, allocating every level that is missing, before it looks the name up. When the
  name is present and the text is bound to \<open>w\<close>, the field holds the whole chain down to
  \<open>w\<close>. When the name is absent the field reports "variable missing" and holds the whole
  chain down to the leaf \<open>follow\<close> ended at: the zero value for a field that was nil, and
  the leaf it had for a field whose chain was whole, which is then left as it was.
\<close>

theorem C3_pointer_chain_materialized:
  "ftag f = Some tag \<and> fname f = r # rest \<and> isUpper r
   \<and> ftype f = (TPtr ^^ Suc n) leaf
   \<and> (case leaf of TPtr _ \<Rightarrow> False | TMap _ _ _ \<Rightarrow> False | _ \<Rightarrow> True)
   \<and> \<not> hasParser l (ftype f)
   \<longrightarrow>
   (\<exists>lv. follow True (ftype f) fv = Ret (leaf, lv, Suc n)
      \<and> (LookupEnv p (prefix @ tag) = None \<longrightarrow>
            loadFields l p prefix [f] [fv]
              = Ret ([FieldErr (prefix @ tag) VariableMissing], [(VPtr ^^ Suc n) lv]))
      \<and> (LookupEnv p (prefix @ tag) = Some s
            \<and> parseAndSetValue l p s leaf lv = Ret (None, w) \<longrightarrow>
            loadFields l p prefix [f] [fv] = Ret ([], [(VPtr ^^ Suc n) w])))
   \<and> follow True (ftype f) VNil = Ret (leaf, zero leaf, Suc n)
   \<and> follow True (ftype f) ((VPtr ^^ Suc n) lv0) = Ret (leaf, lv0, Suc n)
   \<and> (LookupEnv p (prefix @ tag) = None \<longrightarrow>
        loadFields l p prefix [f] [(VPtr ^^ Suc n) lv0]
          = Ret ([FieldErr (prefix @ tag) VariableMissing], [(VPtr ^^ Suc n) lv0]))"
proof (intro impI)
  assume h: "ftag f = Some tag \<and> fname f = r # rest \<and> isUpper r
   \<and> ftype f = (TPtr ^^ Suc n) leaf
   \<and> (case leaf of TPtr _ \<Rightarrow> False | TMap _ _ _ \<Rightarrow> False | _ \<Rightarrow> True)
   \<and> \<not> hasParser l (ftype f)"
  then have tag: "ftag f = Some tag" and exported: "isExported f = Ret True"
    and ty: "ftype f = (TPtr ^^ Suc n) leaf"
    and leaf: "case leaf of TPtr _ \<Rightarrow> False | TMap _ _ _ \<Rightarrow> False | _ \<Rightarrow> True"
    by (simp_all add: isExported_upper)
  from h have noParser: "\<not> hasParser l (ftype f)" by blast
  from leaf have notPtr: "case leaf of TPtr _ \<Rightarrow> False | _ \<Rightarrow> True"
    and notMap: "case leaf of TMap _ _ _ \<Rightarrow> False | _ \<Rightarrow> True"
    by (cases leaf; simp)+
  have bind: "\<not> (isStruct (ftype f) \<and> \<not> hasParser l (ftype f)
                   \<and> \<not> \<not> Option.is_none (textUnmarshaler p (ftype f) True))"
    by (simp add: ty isStruct_def)
  have any: "(LookupEnv p (prefix @ tag) = None \<longrightarrow>
            loadFields l p prefix [f] [v0]
              = Ret ([FieldErr (prefix @ tag) VariableMissing], [(VPtr ^^ Suc n) lv]))
      \<and> (LookupEnv p (prefix @ tag) = Some s
            \<and> parseAndSetValue l p s leaf lv = Ret (None, w) \<longrightarrow>
            loadFields l p prefix [f] [v0] = Ret ([], [(VPtr ^^ Suc n) w]))"
    if fol: "follow True (ftype f) v0 = Ret (leaf, lv, Suc n)" for v0 lv
    using loadFields_single_bind [OF tag exported bind, of prefix v0]
      loadVar_lookup [OF noParser fol notMap, of p "prefix @ tag"]
    by (simp add: rewrap_def)
  from follow_chain [OF notPtr, of "Suc n" fv] obtain lv
    where fol: "follow True (ftype f) fv = Ret (leaf, lv, Suc n)"
    unfolding ty by blast
  have nil: "follow True (ftype f) VNil = Ret (leaf, zero leaf, Suc n)"
    using follow_nil_chain [OF notPtr, of "Suc n"] by (simp add: ty)
  have full: "follow True (ftype f) ((VPtr ^^ Suc n) lv0) = Ret (leaf, lv0, Suc n)"
    using follow_complete_chain [OF notPtr, of "Suc n" lv0] by (simp only: ty)
  show "(\<exists>lv. follow True (ftype f) fv = Ret (leaf, lv, Suc n)
      \<and> (LookupEnv p (prefix @ tag) = None \<longrightarrow>
            loadFields l p prefix [f] [fv]
              = Ret ([FieldErr (prefix @ tag) VariableMissing], [(VPtr ^^ Suc n) lv]))
      \<and> (LookupEnv p (prefix @ tag) = Some s
            \<and> parseAndSetValue l p s leaf lv = Ret (None, w) \<longrightarrow>
            loadFields l p prefix [f] [fv] = Ret ([], [(VPtr ^^ Suc n) w])))
   \<and> follow True (ftype f) VNil = Ret (leaf, zero leaf, Suc n)
   \<and> follow True (ftype f) ((VPtr ^^ Suc n) lv0) = Ret (leaf, lv0, Suc n)
   \<and> (LookupEnv p (prefix @ tag) = None \<longrightarrow>
        loadFields l p prefix [f] [(VPtr ^^ Suc n) lv0]
          = Ret ([FieldErr (prefix @ tag) VariableMissing], [(VPtr ^^ Suc n) lv0]))"
  proof (intro conjI)
    from any [OF fol] fol
    show "\<exists>lv. follow True (ftype f) fv = Ret (leaf, lv, Suc n)
      \<and> (LookupEnv p (prefix @ tag) = None \<longrightarrow>
            loadFields l p prefix [f] [fv]
              = Ret ([FieldErr (prefix @ tag) VariableMissing], [(VPtr ^^ Suc n) lv]))
      \<and> (LookupEnv p (prefix @ tag) = Some s
            \<and> parseAndSetValue l p s leaf lv = Ret (None, w) \<longrightarrow>
            loadFields l p prefix [f] [fv] = Ret ([], [(VPtr ^^ Suc n) w]))"
      by (intro exI [of _ lv] conjI) (elim conjE, assumption)+
    show "follow True (ftype f) VNil = Ret (leaf, zero leaf, Suc n)" by (rule nil)
    show "follow True (ftype f) ((VPtr ^^ Suc n) lv0) = Ret (leaf, lv0, Suc n)" by (rule full)
    from any [OF full]
    show "LookupEnv p (prefix @ tag) = None \<longrightarrow>
        loadFields l p prefix [f] [(VPtr ^^ Suc n) lv0]
          = Ret ([FieldErr (prefix @ tag) VariableMissing], [(VPtr ^^ Suc n) lv0])"
      by (elim conjE)
  qed
qed

theorem C3_pointer_chain_materialized_witness:
  "ftag ptrField = Some ''PTR'' \<and> fname ptrField = CHR ''P'' # ''tr'' \<and> isUpper CHR ''P''
   \<and> ftype ptrField = (TPtr ^^ Suc 1) stringT
   \<and> \<not> hasParser stringLoader (ftype ptrField)
   \<and> LookupEnv (procOf []) (''P_'' @ ''PTR'') = None
   \<and> loadFields stringLoader (procOf []) ''P_'' [ptrField] [VNil]
       = Ret ([FieldErr ''P_PTR'' VariableMissing], [VPtr (VPtr (VBasic []))])
   \<and> loadFields stringLoader (procOf []) ''P_'' [ptrField] [VPtr VNil]
       = Ret ([FieldErr ''P_PTR'' VariableMissing], [VPtr (VPtr (VBasic []))])
   \<and> loadFields stringLoader (procOf []) ''P_'' [ptrField] [VPtr (VPtr (VBasic ''keep''))]
       = Ret ([FieldErr ''P_PTR'' VariableMissing], [VPtr (VPtr (VBasic ''keep''))])
   \<and> LookupEnv (procOf [(''P_PTR'', ''x'')]) (''P_'' @ ''PTR'') = Some ''x''
   \<and> parseAndSetValue stringLoader (procOf [(''P_PTR'', ''x'')]) ''x'' stringT (VBasic ''keep'')
       = Ret (None, VBasic ''x'')
   \<and> loadFields stringLoader (procOf [(''P_PTR'', ''x'')]) ''P_'' [ptrField]
         [VPtr (VPtr (VBasic ''keep''))]
       = Ret ([], [VPtr (VPtr (VBasic ''x''))])"
proof -
  have a: "ftag ptrField = Some ''PTR'' \<and> fname ptrField = CHR ''P'' # ''tr'' \<and> isUpper CHR ''P''
     \<and> ftype ptrField = (TPtr ^^ Suc 1) stringT
     \<and> (case stringT of TPtr _ \<Rightarrow> False | TMap _ _ _ \<Rightarrow> False | _ \<Rightarrow> True)
     \<and> \<not> hasParser stringLoader (ftype ptrField)"
    by (simp add: ptrField_def stringT_def isUpper_def hasParser_def stringLoader_def)
  have b: "LookupEnv (procOf []) (''P_'' @ ''PTR'') = None"
    by (simp add: LookupEnv_def procOf_def)
  have c: "LookupEnv (procOf [(''P_PTR'', ''x'')]) (''P_'' @ ''PTR'') = Some ''x''"
    by (simp add: LookupEnv_def procOf_def)
  have d: "parseAndSetValue stringLoader (procOf [(''P_PTR'', ''x'')]) ''x'' stringT (VBasic ''keep'')
       = Ret (None, VBasic ''x'')"
    by code_simp
  have f1: "follow True (ftype ptrField) VNil = Ret (stringT, VBasic [], Suc 1)"
    by (simp add: ptrField_def stringT_def)
  have f2: "follow True (ftype ptrField) (VPtr VNil) = Ret (stringT, VBasic [], Suc 1)"
    by (simp add: ptrField_def stringT_def)
  have f3: "follow True (ftype ptrField) (VPtr (VPtr (VBasic ''keep'')))
      = Ret (stringT, VBasic ''keep'', Suc 1)"
    by (simp add: ptrField_def stringT_def)
  note T = C3_pointer_chain_materialized [of ptrField "''PTR''" "CHR ''P''" "''tr''" 1 stringT
        stringLoader]
  have r1: "loadFields stringLoader (procOf []) ''P_'' [ptrField] [VNil]
      = Ret ([FieldErr (''P_'' @ ''PTR'') VariableMissing], [(VPtr ^^ Suc 1) (VBasic [])])"
    using T [of VNil "procOf []" "''P_''"] a b f1 by auto
  have r2: "loadFields stringLoader (procOf []) ''P_'' [ptrField] [VPtr VNil]
      = Ret ([FieldErr (''P_'' @ ''PTR'') VariableMissing], [(VPtr ^^ Suc 1) (VBasic [])])"
    using T [of "VPtr VNil" "procOf []" "''P_''"] a b f2 by auto
  have r3: "loadFields stringLoader (procOf []) ''P_'' [ptrField] [(VPtr ^^ Suc 1) (VBasic ''keep'')]
      = Ret ([FieldErr (''P_'' @ ''PTR'') VariableMissing], [(VPtr ^^ Suc 1) (VBasic ''keep'')])"
    using T [of _ "procOf []" "''P_''" _ _ "VBasic ''keep''"] a b by blast
  have r4: "loadFields stringLoader (procOf [(''P_PTR'', ''x'')]) ''P_'' [ptrField]
         [VPtr (VPtr (VBasic ''keep''))]
      = Ret ([], [(VPtr ^^ Suc 1) (VBasic ''x'')])"
    using T [of "VPtr (VPtr (VBasic ''keep''))" "procOf [(''P_PTR'', ''x'')]" "''P_''" "''x''"
        "VBasic ''x''"] a c d f3 by auto
  show ?thesis
    using a b c d r1 r2 r3 r4 by (simp add: stringT_def hasParser_def stringLoader_def)
qed

text \<open>
  C3 as stated says that the field's stored value is unchanged when the name is absent.
  For \<^verbatim>\<open>Ptr **string `env:"PTR"`\<close>, nil, and an empty environment, \<^verbatim>\<open>Load\<close> fails with
  "variable missing" for \<^verbatim>\<open>P_PTR\<close> and leaves the field pointing to a pointer to the empty
  string.
\<close>

theorem C3_counterexample:
  "LookupEnv (procOf []) ''P_PTR'' = None
   \<and> Load stringLoader (procOf []) (TPtr (TStruct ''config'' [ptrField]))
        (VPtr (VStruct [VNil])) ''P_''
      = Ret (Some (LoadError [FieldErr ''P_PTR'' VariableMissing]),
             VPtr (VStruct [VPtr (VPtr (VBasic []))]))
   \<and> VPtr (VStruct [VPtr (VPtr (VBasic []))]) \<noteq> VPtr (VStruct [VNil])"
  by code_simp

section \<open>Associative containers\<close>

text \<open>
  C5, as the code has it. Let the type \<^verbatim>\<open>loadVar\<close> is left with after the indirection rule
  be a map type. When it has no text-unmarshal capability, on the value or on its address,
  the result of \<^verbatim>\<open>loadVar\<close> is that of \<^verbatim>\<open>parseAndSetMap\<close>, its error wrapped, and the name of
  the container is never looked up: when no variable begins with the name, the binding
  succeeds with an empty map. When it has the capability, the map is bound like a leaf:
  the name is looked up once, "variable missing" is returned when it is absent, and
  otherwise the text of the variable is handed to \<^verbatim>\<open>UnmarshalText\<close>, whose error, wrapped,
  and whose effect on the map are the result; the variables that merely begin with the
  name are not scanned.
\<close>

theorem C5_map_delegates_to_scanner:
  "(if \<not> hasParser l rt then follow True rt rv else Ret (rt, rv, 0)) = Ret (TMap nm kt vt, v, n)
   \<longrightarrow>
   (textUnmarshaler p (TMap nm kt vt) True = None \<longrightarrow>
      loadVar l p rt rv name =
        (case parseAndSetMap l p name kt vt v of
           Panic x \<Rightarrow> Panic x
         | Ret (Some e, v') \<Rightarrow> Ret (Some (CannotParseMap (TMap nm kt vt) e), rewrap n v')
         | Ret (None, v') \<Rightarrow> Ret (None, rewrap n v'))
      \<and> (rangeOrder p (varsPrefixed p name) = [] \<longrightarrow>
           loadVar l p rt rv name = Ret (None, rewrap n (VMap []))))
   \<and> (textUnmarshaler p (TMap nm kt vt) True = Some tu \<longrightarrow>
      loadVar l p rt rv name =
        (case LookupEnv p name of
           None \<Rightarrow> Ret (Some VariableMissing, rewrap n v)
         | Some s \<Rightarrow>
             Ret (map_option (\<lambda>e. CannotParseAs s (TMap nm kt vt) (Custom e)) (fst (tu s v)),
                  rewrap n (snd (tu s v)))))"
proof (intro impI conjI)
  assume h: "(if \<not> hasParser l rt then follow True rt rv else Ret (rt, rv, 0))
       = Ret (TMap nm kt vt, v, n)"
  assume none: "textUnmarshaler p (TMap nm kt vt) True = None"
  from h none show var: "loadVar l p rt rv name =
     (case parseAndSetMap l p name kt vt v of
        Panic x \<Rightarrow> Panic x
      | Ret (Some e, v') \<Rightarrow> Ret (Some (CannotParseMap (TMap nm kt vt) e), rewrap n v')
      | Ret (None, v') \<Rightarrow> Ret (None, rewrap n v'))"
    by (simp add: loadVar_def)
  assume "rangeOrder p (varsPrefixed p name) = []"
  then have "parseAndSetMap l p name kt vt v = Ret (None, VMap [])"
    by (simp add: parseAndSetMap_def)
  with var show "loadVar l p rt rv name = Ret (None, rewrap n (VMap []))"
    by simp
next
  assume h: "(if \<not> hasParser l rt then follow True rt rv else Ret (rt, rv, 0))
       = Ret (TMap nm kt vt, v, n)"
  assume some: "textUnmarshaler p (TMap nm kt vt) True = Some tu"
  have bound: "parseAndSetValue l p s (TMap nm kt vt) v
      = Ret (map_option Custom (fst (tu s v)), snd (tu s v))" for s
    using some by (simp add: parseAndSetValue.simps split: prod.split)
  show "loadVar l p rt rv name =
        (case LookupEnv p name of
           None \<Rightarrow> Ret (Some VariableMissing, rewrap n v)
         | Some s \<Rightarrow>
             Ret (map_option (\<lambda>e. CannotParseAs s (TMap nm kt vt) (Custom e)) (fst (tu s v)),
                  rewrap n (snd (tu s v))))"
  proof (cases "LookupEnv p name")
    case None
    with h some show ?thesis by (simp add: loadVar_def)
  next
    case (Some s)
    show ?thesis
      using h some Some
      by (cases "fst (tu s v)") (simp_all add: loadVar_def bound)
  qed
qed

theorem C5_map_delegates_to_scanner_witness:
  "(if \<not> hasParser stringLoader (TPtr (TMap [] stringT stringT))
    then follow True (TPtr (TMap [] stringT stringT)) VNil
    else Ret (TPtr (TMap [] stringT stringT), VNil, 0)) = Ret (TMap [] stringT stringT, VMap [], 1)
   \<and> textUnmarshaler (procOf [(''MAP_a'', ''A'')]) (TMap [] stringT stringT) True = None
   \<and> LookupEnv (procOf [(''MAP_a'', ''A'')]) ''MAP_'' = None
   \<and> parseAndSetMap stringLoader (procOf [(''MAP_a'', ''A'')]) ''MAP_'' stringT stringT (VMap [])
       = Ret (None, VMap [(VBasic ''a'', VBasic ''A'')])
   \<and> loadVar stringLoader (procOf [(''MAP_a'', ''A'')]) (TPtr (TMap [] stringT stringT)) VNil ''MAP_''
       = Ret (None, VPtr (VMap [(VBasic ''a'', VBasic ''A'')]))
   \<and> rangeOrder (procOf []) (varsPrefixed (procOf []) ''MAP_'') = []
   \<and> loadVar stringLoader (procOf []) (TPtr (TMap [] stringT stringT)) VNil ''MAP_''
       = Ret (None, VPtr (VMap []))
   \<and> (if \<not> hasParser stringLoader customMapT then follow True customMapT (VMap [])
       else Ret (customMapT, VMap [], 0)) = Ret (TMap ''customMap'' stringT stringT, VMap [], 0)
   \<and> textUnmarshaler (tuProc [(''MAP'', ''k=v''), (''MAPx'', ''y'')])
        (TMap ''customMap'' stringT stringT) True = Some storeEntry
   \<and> LookupEnv (tuProc [(''MAP'', ''k=v''), (''MAPx'', ''y'')]) ''MAP'' = Some ''k=v''
   \<and> loadVar stringLoader (tuProc [(''MAP'', ''k=v''), (''MAPx'', ''y'')]) customMapT (VMap []) ''MAP''
       = Ret (None, VMap [(VBasic ''text'', VBasic ''k=v'')])
   \<and> loadVar stringLoader (tuProc [(''MAPx'', ''y'')]) customMapT (VMap []) ''MAP''
       = Ret (Some VariableMissing, VMap [])"
proof -
  let ?mt = "TMap [] stringT stringT"
  let ?ct = "TMap ''customMap'' stringT stringT"
  let ?q = "tuProc [(''MAP'', ''k=v''), (''MAPx'', ''y'')]"
  have a: "(if \<not> hasParser stringLoader (TPtr ?mt) then follow True (TPtr ?mt) VNil
            else Ret (TPtr ?mt, VNil, 0)) = Ret (?mt, VMap [], 1)"
    by (simp add: hasParser_def stringLoader_def stringT_def)
  have b: "textUnmarshaler p' ?mt True = None" if "unmarshalText p' = (\<lambda>t. None)" for p'
    using that by (simp add: textUnmarshaler_def)
  have b1: "textUnmarshaler (procOf [(''MAP_a'', ''A'')]) ?mt True = None"
    by (rule b) (simp add: procOf_def)
  have b2: "textUnmarshaler (procOf []) ?mt True = None"
    by (rule b) (simp add: procOf_def)
  have c: "LookupEnv (procOf [(''MAP_a'', ''A'')]) ''MAP_'' = None"
    by (simp add: LookupEnv_def procOf_def)
  have d: "parseAndSetMap stringLoader (procOf [(''MAP_a'', ''A'')]) ''MAP_'' stringT stringT (VMap [])
       = Ret (None, VMap [(VBasic ''a'', VBasic ''A'')])"
    by code_simp
  have e: "rangeOrder (procOf []) (varsPrefixed (procOf []) ''MAP_'') = []"
    by (simp add: procOf_def varsPrefixed_def)
  have r1: "loadVar stringLoader (procOf [(''MAP_a'', ''A'')]) (TPtr ?mt) VNil ''MAP_'' =
     (case parseAndSetMap stringLoader (procOf [(''MAP_a'', ''A'')]) ''MAP_'' stringT stringT (VMap []) of
        Panic x \<Rightarrow> Panic x
      | Ret (Some e, v') \<Rightarrow> Ret (Some (CannotParseMap ?mt e), rewrap 1 v')
      | Ret (None, v') \<Rightarrow> Ret (None, rewrap 1 v'))"
    using C5_map_delegates_to_scanner [of stringLoader "TPtr ?mt" VNil "[]" stringT stringT
        "VMap []" 1 "procOf [(''MAP_a'', ''A'')]" "''MAP_''"] a b1
    by blast
  have r2: "loadVar stringLoader (procOf []) (TPtr ?mt) VNil ''MAP_'' = Ret (None, rewrap 1 (VMap []))"
    using C5_map_delegates_to_scanner [of stringLoader "TPtr ?mt" VNil "[]" stringT stringT
        "VMap []" 1 "procOf []" "''MAP_''"] a b2 e
    by blast
  have a': "(if \<not> hasParser stringLoader customMapT then follow True customMapT (VMap [])
       else Ret (customMapT, VMap [], 0)) = Ret (?ct, VMap [], 0)"
    by (simp add: hasParser_def stringLoader_def stringT_def customMapT_def)
  have tu: "textUnmarshaler (tuProc env) ?ct True = Some storeEntry" for env
    by (simp add: textUnmarshaler_def tuProc_def customMapT_def speedT_def stringT_def)
  have c1: "LookupEnv ?q ''MAP'' = Some ''k=v''"
    by (simp add: LookupEnv_def tuProc_def)
  have c2: "LookupEnv (tuProc [(''MAPx'', ''y'')]) ''MAP'' = None"
    by (simp add: LookupEnv_def tuProc_def)
  have r3: "loadVar stringLoader ?q customMapT (VMap []) ''MAP'' =
        (case LookupEnv ?q ''MAP'' of
           None \<Rightarrow> Ret (Some VariableMissing, rewrap 0 (VMap []))
         | Some s \<Rightarrow>
             Ret (map_option (\<lambda>e. CannotParseAs s ?ct (Custom e)) (fst (storeEntry s (VMap []))),
                  rewrap 0 (snd (storeEntry s (VMap [])))))"
    using C5_map_delegates_to_scanner [of stringLoader customMapT "VMap []" "''customMap''"
        stringT stringT "VMap []" 0 ?q "''MAP''" storeEntry] a' tu
    by blast
  have r4: "loadVar stringLoader (tuProc [(''MAPx'', ''y'')]) customMapT (VMap []) ''MAP'' =
        (case LookupEnv (tuProc [(''MAPx'', ''y'')]) ''MAP'' of
           None \<Rightarrow> Ret (Some VariableMissing, rewrap 0 (VMap []))
         | Some s \<Rightarrow>
             Ret (map_option (\<lambda>e. CannotParseAs s ?ct (Custom e)) (fst (storeEntry s (VMap []))),
                  rewrap 0 (snd (storeEntry s (VMap [])))))"
    using C5_map_delegates_to_scanner [of stringLoader customMapT "VMap []" "''customMap''"
        stringT stringT "VMap []" 0 "tuProc [(''MAPx'', ''y'')]" "''MAP''" storeEntry] a' tu
    by blast
  show ?thesis
    using a b1 c d e r1 r2 a' tu [of "[(''MAP'', ''k=v''), (''MAPx'', ''y'')]"] c1 r3 r4
    by (simp add: rewrap_def c2 storeEntry_def)
qed

text \<open>
  C5 as stated covers every map type. \<^verbatim>\<open>customMap\<close> is a map type with \<^verbatim>\<open>UnmarshalText\<close> on
  its pointer: \<^verbatim>\<open>loadVar\<close> looks its name up and fails with "variable missing" in an empty
  environment, where the scanner would have succeeded with an empty map. The first
  revision of \<^verbatim>\<open>loadVar\<close> tests the kind alone and does delegate.
\<close>

theorem C5_counterexample:
  "follow True customMapT (VMap []) = Ret (TMap ''customMap'' stringT stringT, VMap [], 0)
   \<and> parseAndSetMap stringLoader (tuProc []) ''MAP'' stringT stringT (VMap [])
       = Ret (None, VMap [])
   \<and> loadVar stringLoader (tuProc []) customMapT (VMap []) ''MAP''
       = Ret (Some VariableMissing, VMap [])"
  by code_simp

section \<open>Pointers to structs\<close>

text \<open>
  C9, as the code has it. An exported, tagged field declared as a pointer to a struct is
  never walked as a nested record. When neither the pointer type nor the struct type has a
  registry entry and the struct type has no text-unmarshal capability, the field is bound
  by one lookup of its qualified name: "variable missing" when the name is absent, the
  "not supported" parse error when it is present. Either way the pointer is left pointing
  to the struct it pointed to, or to a new zero struct, whose fields are not visited.
\<close>

theorem C9_pointer_to_struct_is_bound:
  "ftag f = Some tag \<and> fname f = r # rest \<and> isUpper r
   \<and> ftype f = TPtr (TStruct nm sfs)
   \<and> \<not> hasParser l (TPtr (TStruct nm sfs))
   \<and> \<not> hasParser l (TStruct nm sfs)
   \<and> textUnmarshaler p (TStruct nm sfs) True = None
   \<longrightarrow>
   loadFields l p prefix [f] [fv] =
     (case LookupEnv p (prefix @ tag) of
        None \<Rightarrow>
          Ret ([FieldErr (prefix @ tag) VariableMissing],
               [VPtr (case fv of VPtr sv \<Rightarrow> sv | _ \<Rightarrow> zero (TStruct nm sfs))])
      | Some s \<Rightarrow>
          Ret ([FieldErr (prefix @ tag)
                  (CannotParseAs s (TStruct nm sfs) (NotSupported (TStruct nm sfs)))],
               [VPtr (case fv of VPtr sv \<Rightarrow> sv | _ \<Rightarrow> zero (TStruct nm sfs))]))"
proof (intro impI)
  let ?S = "TStruct nm sfs"
  let ?sv = "case fv of VPtr sv \<Rightarrow> sv | _ \<Rightarrow> zero ?S"
  assume h: "ftag f = Some tag \<and> fname f = r # rest \<and> isUpper r
   \<and> ftype f = TPtr ?S \<and> \<not> hasParser l (TPtr ?S) \<and> \<not> hasParser l ?S
   \<and> textUnmarshaler p ?S True = None"
  then have tag: "ftag f = Some tag" and exported: "isExported f = Ret True"
    and ty: "ftype f = TPtr ?S" and noPtrParser: "\<not> hasParser l (TPtr ?S)"
    and noParser: "parsers l ?S = None" and noTU: "textUnmarshaler p ?S True = None"
    by (simp_all add: isExported_upper hasParser_def Option.is_none_def)
  have fol: "follow True (TPtr ?S) fv = Ret (?S, ?sv, 1)"
    by (cases fv) simp_all
  have bind: "\<not> (isStruct (ftype f) \<and> \<not> hasParser l (ftype f)
                   \<and> \<not> \<not> Option.is_none (textUnmarshaler p (ftype f) True))"
    by (simp add: ty isStruct_def)
  have unsupported: "parseAndSetValue l p s ?S ?sv = Ret (Some (NotSupported ?S), ?sv)" for s
    by (simp add: parseAndSetValue.simps noParser noTU)
  have var: "loadVar l p (TPtr ?S) fv (prefix @ tag) =
     (case LookupEnv p (prefix @ tag) of
        None \<Rightarrow> Ret (Some VariableMissing, VPtr ?sv)
      | Some s \<Rightarrow> Ret (Some (CannotParseAs s ?S (NotSupported ?S)), VPtr ?sv))"
    using loadVar_lookup [OF noPtrParser fol, of p "prefix @ tag"]
    by (simp add: unsupported rewrap_def split: option.split)
  show "loadFields l p prefix [f] [fv] =
     (case LookupEnv p (prefix @ tag) of
        None \<Rightarrow> Ret ([FieldErr (prefix @ tag) VariableMissing], [VPtr ?sv])
      | Some s \<Rightarrow>
          Ret ([FieldErr (prefix @ tag) (CannotParseAs s ?S (NotSupported ?S))], [VPtr ?sv]))"
    using loadFields_single_bind [OF tag exported bind, of prefix fv]
    by (simp add: ty var split: option.split)
qed

theorem C9_pointer_to_struct_is_bound_witness:
  "ftag innerPtrField = Some ''INNER_'' \<and> fname innerPtrField = CHR ''I'' # ''nner''
   \<and> isUpper CHR ''I'' \<and> ftype innerPtrField = TPtr (TStruct ''Inner'' [fooField])
   \<and> \<not> hasParser stringLoader (TPtr (TStruct ''Inner'' [fooField]))
   \<and> \<not> hasParser stringLoader (TStruct ''Inner'' [fooField])
   \<and> textUnmarshaler (procOf [(''INNER_FOO'', ''f'')]) (TStruct ''Inner'' [fooField]) True = None
   \<and> loadFields stringLoader (procOf [(''INNER_FOO'', ''f'')]) [] [innerPtrField] [VNil]
       = Ret ([FieldErr ''INNER_'' VariableMissing], [VPtr (VStruct [VBasic []])])
   \<and> loadFields stringLoader (procOf [(''INNER_'', ''x''), (''INNER_FOO'', ''f'')]) []
         [innerPtrField] [VNil]
       = Ret ([FieldErr ''INNER_''
                 (CannotParseAs ''x'' (TStruct ''Inner'' [fooField])
                    (NotSupported (TStruct ''Inner'' [fooField])))],
              [VPtr (VStruct [VBasic []])])"
proof -
  let ?S = "TStruct ''Inner'' [fooField]"
  have a: "ftag innerPtrField = Some ''INNER_'' \<and> fname innerPtrField = CHR ''I'' # ''nner''
     \<and> isUpper CHR ''I'' \<and> ftype innerPtrField = TPtr ?S
     \<and> \<not> hasParser stringLoader (TPtr ?S) \<and> \<not> hasParser stringLoader ?S"
    by (simp add: innerPtrField_def innerT_def isUpper_def hasParser_def stringLoader_def
          stringT_def)
  have b: "textUnmarshaler (procOf env) ?S True = None" for env
    by (simp add: textUnmarshaler_def procOf_def)
  have r1: "loadFields stringLoader (procOf [(''INNER_FOO'', ''f'')]) [] [innerPtrField] [VNil] =
     (case LookupEnv (procOf [(''INNER_FOO'', ''f'')]) ([] @ ''INNER_'') of
        None \<Rightarrow>
          Ret ([FieldErr ([] @ ''INNER_'') VariableMissing],
               [VPtr (case VNil of VPtr sv \<Rightarrow> sv | _ \<Rightarrow> zero ?S)])
      | Some s \<Rightarrow>
          Ret ([FieldErr ([] @ ''INNER_'') (CannotParseAs s ?S (NotSupported ?S))],
               [VPtr (case VNil of VPtr sv \<Rightarrow> sv | _ \<Rightarrow> zero ?S)]))"
    using C9_pointer_to_struct_is_bound [of innerPtrField "''INNER_''" "CHR ''I''" "''nner''"
        "''Inner''" "[fooField]" stringLoader "procOf [(''INNER_FOO'', ''f'')]" "[]" VNil]
      a b by blast
  have r2: "loadFields stringLoader (procOf [(''INNER_'', ''x''), (''INNER_FOO'', ''f'')]) []
       [innerPtrField] [VNil] =
     (case LookupEnv (procOf [(''INNER_'', ''x''), (''INNER_FOO'', ''f'')]) ([] @ ''INNER_'') of
        None \<Rightarrow>
          Ret ([FieldErr ([] @ ''INNER_'') VariableMissing],
               [VPtr (case VNil of VPtr sv \<Rightarrow> sv | _ \<Rightarrow> zero ?S)])
      | Some s \<Rightarrow>
          Ret ([FieldErr ([] @ ''INNER_'') (CannotParseAs s ?S (NotSupported ?S))],
               [VPtr (case VNil of VPtr sv \<Rightarrow> sv | _ \<Rightarrow> zero ?S)]))"
    using C9_pointer_to_struct_is_bound [of innerPtrField "''INNER_''" "CHR ''I''" "''nner''"
        "''Inner''" "[fooField]" stringLoader
        "procOf [(''INNER_'', ''x''), (''INNER_FOO'', ''f'')]" "[]" VNil]
      a b by blast
  have z: "zeroFld fooField = VBasic []"
    by (simp add: fooField_def stringT_def)
  show ?thesis
    using a b [of "[(''INNER_FOO'', ''f'')]"] r1 r2
    by (simp add: z LookupEnv_def procOf_def)
qed

text \<open>
  C9 as stated asks only that the struct type have no registry entry. When the registry
  holds an entry for the pointer type itself, \<^verbatim>\<open>loadVar\<close> does not follow the pointer and
  the registered function parses the text: the field is loaded without error.
\<close>

theorem C9_counterexample:
  "\<not> hasParser innerPtrLoader innerT
   \<and> textUnmarshaler (procOf [(''INNER_'', ''x'')]) innerT True = None
   \<and> ftype innerPtrField = TPtr innerT
   \<and> LookupEnv (procOf [(''INNER_'', ''x'')]) ''INNER_'' = Some ''x''
   \<and> loadFields innerPtrLoader (procOf [(''INNER_'', ''x'')]) [] [innerPtrField] [VNil]
       = Ret ([], [VPtr (VStruct [VBasic ''x''])])"
  by code_simp

text \<open>
  C7, as the code has it. Let the names of the environment be distinct. When
  \<^verbatim>\<open>parseAndSetMap\<close> succeeds, the variables it visited are those whose name starts with the
  prefix, and each contributed one pair: the suffix of its name bound as a new value of the
  key type, and its value bound as a new value of the value type. The container is the
  result of \<^verbatim>\<open>SetMapIndex\<close> on these pairs in the order visited, a pair replacing an earlier
  one with an equal key; when the keys are pairwise distinct, or of pointer type, the
  container holds exactly these pairs, one entry for each such variable.
\<close>

theorem C7_map_entries:
  "parseAndSetMap l p name kt vt rv = Ret (None, rv') \<and> distinct (map fst (environ p))
   \<longrightarrow>
   (\<exists>kvs. list_all2 (\<lambda>(varName, valStr) (k, v).
               parseNew l p (drop (length name) varName) kt = Ret (None, k)
               \<and> parseNew l p valStr vt = Ret (None, v))
             (rangeOrder p (filter (\<lambda>(varName, valStr). HasPrefix varName name) (environ p))) kvs
         \<and> rv' = VMap (foldl (\<lambda>m (k, v). SetMapIndex kt m k v) [] kvs)
         \<and> (distinct (map fst kvs) \<or> (case kt of TPtr _ \<Rightarrow> True | _ \<Rightarrow> False)
              \<longrightarrow> rv' = VMap kvs))"
proof (intro impI)
  assume h: "parseAndSetMap l p name kt vt rv = Ret (None, rv') \<and> distinct (map fst (environ p))"
  then have ok: "parseAndSetMap l p name kt vt rv = Ret (None, rv')"
    and uniq: "distinct (map fst (environ p))" by simp_all
  from ok [unfolded parseAndSetMap_ok] obtain kvs where
    kvs: "list_all2 (\<lambda>(varName, valStr) (k, v).
               parseNew l p (drop (length name) varName) kt = Ret (None, k)
               \<and> parseNew l p valStr vt = Ret (None, v))
             (rangeOrder p (varsPrefixed p name)) kvs"
    and rv': "rv' = VMap (foldl (\<lambda>m (k, v). SetMapIndex kt m k v) [] kvs)"
    by blast
  have same: "rv' = VMap kvs"
    if "distinct (map fst kvs) \<or> (case kt of TPtr _ \<Rightarrow> True | _ \<Rightarrow> False)"
  proof (cases "distinct (map fst kvs)")
    case True
    with foldl_SetMapIndex_distinct [of "[]" kvs kt] rv' show ?thesis by simp
  next
    case False
    with that obtain t where "kt = TPtr t" by (cases kt) auto
    with foldl_SetMapIndex_ptr [of t "[]" kvs] rv' show ?thesis by simp
  qed
  show "\<exists>kvs. list_all2 (\<lambda>(varName, valStr) (k, v).
               parseNew l p (drop (length name) varName) kt = Ret (None, k)
               \<and> parseNew l p valStr vt = Ret (None, v))
             (rangeOrder p (filter (\<lambda>(varName, valStr). HasPrefix varName name) (environ p))) kvs
         \<and> rv' = VMap (foldl (\<lambda>m (k, v). SetMapIndex kt m k v) [] kvs)
         \<and> (distinct (map fst kvs) \<or> (case kt of TPtr _ \<Rightarrow> True | _ \<Rightarrow> False)
              \<longrightarrow> rv' = VMap kvs)"
    using kvs rv' same unfolding varsPrefixed_filter [OF uniq] by blast
qed

theorem C7_map_entries_witness:
  "parseAndSetMap stringLoader (procOf [(''MAP_a'', ''A''), (''OTHER'', ''x''), (''MAP_b'', ''B'')])
      ''MAP_'' stringT stringT (VMap [(VBasic ''old'', VBasic ''entry'')])
     = Ret (None, VMap [(VBasic ''a'', VBasic ''A''), (VBasic ''b'', VBasic ''B'')])
   \<and> distinct (map fst (environ (procOf [(''MAP_a'', ''A''), (''OTHER'', ''x''), (''MAP_b'', ''B'')])))
   \<and> list_all2 (\<lambda>(varName, valStr) (k, v).
         parseNew stringLoader (procOf [(''MAP_a'', ''A''), (''OTHER'', ''x''), (''MAP_b'', ''B'')])
           (drop (length ''MAP_'') varName) stringT = Ret (None, k)
         \<and> parseNew stringLoader (procOf [(''MAP_a'', ''A''), (''OTHER'', ''x''), (''MAP_b'', ''B'')])
           valStr stringT = Ret (None, v))
       [(''MAP_a'', ''A''), (''MAP_b'', ''B'')]
       [(VBasic ''a'', VBasic ''A''), (VBasic ''b'', VBasic ''B'')]"
proof -
  let ?p = "procOf [(''MAP_a'', ''A''), (''OTHER'', ''x''), (''MAP_b'', ''B'')]"
  have ok: "parseAndSetMap stringLoader ?p ''MAP_'' stringT stringT (VMap [(VBasic ''old'', VBasic ''entry'')])
     = Ret (None, VMap [(VBasic ''a'', VBasic ''A''), (VBasic ''b'', VBasic ''B'')])"
    by code_simp
  have uniq: "distinct (map fst (environ ?p))"
    by (simp add: procOf_def)
  have visited: "rangeOrder ?p (filter (\<lambda>(varName, valStr). HasPrefix varName ''MAP_'') (environ ?p))
      = [(''MAP_a'', ''A''), (''MAP_b'', ''B'')]"
    by (simp add: procOf_def HasPrefix_def)
  from C7_map_entries [of stringLoader ?p "''MAP_''" stringT stringT
      "VMap [(VBasic ''old'', VBasic ''entry'')]"
      "VMap [(VBasic ''a'', VBasic ''A''), (VBasic ''b'', VBasic ''B'')]"] ok uniq
  obtain kvs where
    kvs: "list_all2 (\<lambda>(varName, valStr) (k, v).
               parseNew stringLoader ?p (drop (length ''MAP_'') varName) stringT = Ret (None, k)
               \<and> parseNew stringLoader ?p valStr stringT = Ret (None, v))
             (rangeOrder ?p (filter (\<lambda>(varName, valStr). HasPrefix varName ''MAP_'') (environ ?p))) kvs"
    and m: "VMap [(VBasic ''a'', VBasic ''A''), (VBasic ''b'', VBasic ''B'')]
         = VMap (foldl (\<lambda>m (k, v). SetMapIndex stringT m k v) [] kvs)"
    by blast
  have pn: "parseNew stringLoader ?p s stringT = Ret (None, VBasic s)" for s
    by (simp add: parseNew_def parseAndSetValue.simps textUnmarshaler_def procOf_def
          stringLoader_def parseString_def stringT_def rewrap_def)
  from kvs have "kvs = [(VBasic ''a'', VBasic ''A''), (VBasic ''b'', VBasic ''B'')]"
    unfolding visited by (auto simp: list_all2_Cons1 pn)
  with kvs show ?thesis
    unfolding visited using ok uniq by simp
qed

text \<open>
  C7 as stated promises one entry for each external key. The variables \<^verbatim>\<open>M_1\<close> and \<^verbatim>\<open>M_01\<close>
  both start with \<^verbatim>\<open>M_\<close>; their suffixes are bound to the same \<^verbatim>\<open>int\<close> key, and the map holds
  one entry, the second having replaced the first.
\<close>

theorem C7_counterexample:
  "varsPrefixed (procOf [(''M_1'', ''a''), (''M_01'', ''b'')]) ''M_''
     = [(''M_1'', ''a''), (''M_01'', ''b'')]
   \<and> parseNew intLoader (procOf [(''M_1'', ''a''), (''M_01'', ''b'')]) ''1'' intT
       = Ret (None, VBasic ''1'')
   \<and> parseNew intLoader (procOf [(''M_1'', ''a''), (''M_01'', ''b'')]) ''01'' intT
       = Ret (None, VBasic ''1'')
   \<and> parseAndSetMap intLoader (procOf [(''M_1'', ''a''), (''M_01'', ''b'')]) ''M_'' intT stringT
        (VMap [])
       = Ret (None, VMap [(VBasic ''1'', VBasic ''b'')])"
  by code_simp

section \<open>Collections are built before they are assigned\<close>

text \<open>
  C10, as the code has it. \<^verbatim>\<open>parseAndSetSlice\<close> and \<^verbatim>\<open>parseAndSetMap\<close> build a new collection
  and assign it last. When either returns an error the destination is as it was. When
  either succeeds, the destination is the new collection, the same whatever the
  destination held before: for a slice, one element for each field of the tokenizer, bound
  from that field; for a map, the pairs bound from the variables visited, entered with
  \<^verbatim>\<open>SetMapIndex\<close>, so that the map has one entry for each distinct key among them (and, for
  keys of pointer type, one entry for each variable).
\<close>

theorem C10_collections_replaced_atomically:
  "(parseAndSetSlice l p s n et rv = Ret (Some e, rv') \<longrightarrow> rv' = rv)
   \<and> (parseAndSetSlice l p s n et rv = Ret (None, rv') \<longrightarrow>
        parseAndSetSlice l p s n et rv2 = Ret (None, rv')
        \<and> (\<exists>fs vs. splitSlice s = Ret (Inr fs)
              \<and> list_all2 (\<lambda>f v. parseAndSetValue l p f et (zero et) = Ret (None, v)) fs vs
              \<and> rv' = VSlice vs))
   \<and> (parseAndSetMap l p name kt vt rv = Ret (Some e, rv') \<longrightarrow> rv' = rv)
   \<and> (parseAndSetMap l p name kt vt rv = Ret (None, rv') \<longrightarrow>
        parseAndSetMap l p name kt vt rv2 = Ret (None, rv')
        \<and> (\<exists>kvs m. list_all2 (\<lambda>(varName, valStr) (k, v).
                  parseNew l p (drop (length name) varName) kt = Ret (None, k)
                  \<and> parseNew l p valStr vt = Ret (None, v))
                (rangeOrder p (varsPrefixed p name)) kvs
              \<and> rv' = VMap m
              \<and> fst ` set m = fst ` set kvs
              \<and> (case kt of TPtr _ \<Rightarrow> m = kvs | _ \<Rightarrow> distinct (map fst m))))"
proof (intro conjI impI)
  assume "parseAndSetSlice l p s n et rv = Ret (Some e, rv')"
  then show "rv' = rv" by (rule parseAndSetSlice_err)
next
  assume ok: "parseAndSetSlice l p s n et rv = Ret (None, rv')"
  then show "parseAndSetSlice l p s n et rv2 = Ret (None, rv')"
    unfolding parseAndSetSlice_ok .
  from ok show "\<exists>fs vs. splitSlice s = Ret (Inr fs)
              \<and> list_all2 (\<lambda>f v. parseAndSetValue l p f et (zero et) = Ret (None, v)) fs vs
              \<and> rv' = VSlice vs"
    unfolding parseAndSetSlice_ok .
next
  assume "parseAndSetMap l p name kt vt rv = Ret (Some e, rv')"
  then show "rv' = rv" by (rule parseAndSetMap_err)
next
  assume ok: "parseAndSetMap l p name kt vt rv = Ret (None, rv')"
  then show "parseAndSetMap l p name kt vt rv2 = Ret (None, rv')"
    unfolding parseAndSetMap_ok .
  from ok [unfolded parseAndSetMap_ok] obtain kvs where
    kvs: "list_all2 (\<lambda>(varName, valStr) (k, v).
               parseNew l p (drop (length name) varName) kt = Ret (None, k)
               \<and> parseNew l p valStr vt = Ret (None, v))
             (rangeOrder p (varsPrefixed p name)) kvs"
    and rv': "rv' = VMap (foldl (\<lambda>m (k, v). SetMapIndex kt m k v) [] kvs)"
    by blast
  let ?m = "foldl (\<lambda>m (k, v). SetMapIndex kt m k v) [] kvs"
  have keys: "fst ` set ?m = fst ` set kvs"
    using foldl_SetMapIndex_keys [of kt "[]" kvs] by simp
  have shape: "case kt of TPtr _ \<Rightarrow> ?m = kvs | _ \<Rightarrow> distinct (map fst ?m)"
  proof (cases "case kt of TPtr _ \<Rightarrow> False | _ \<Rightarrow> True")
    case True
    from foldl_SetMapIndex_distinct_keys [OF True, of "[]" kvs] True
    show ?thesis by (cases kt) simp_all
  next
    case False
    then obtain t where "kt = TPtr t" by (cases kt) auto
    with foldl_SetMapIndex_ptr [of t "[]" kvs] show ?thesis by simp
  qed
  from kvs rv' keys shape
  show "\<exists>kvs m. list_all2 (\<lambda>(varName, valStr) (k, v).
                  parseNew l p (drop (length name) varName) kt = Ret (None, k)
                  \<and> parseNew l p valStr vt = Ret (None, v))
                (rangeOrder p (varsPrefixed p name)) kvs
              \<and> rv' = VMap m
              \<and> fst ` set m = fst ` set kvs
              \<and> (case kt of TPtr _ \<Rightarrow> m = kvs | _ \<Rightarrow> distinct (map fst m))"
    by blast
qed

theorem C10_collections_replaced_atomically_witness:
  "parseAndSetSlice stringLoader (procOf [(''M_a'', ''A'')]) [dquote, CHR ''x''] [] stringT
       (VSlice [VBasic ''old''])
     = Ret (Some (TokErr UnbalancedQuotes), VSlice [VBasic ''old''])
   \<and> parseAndSetSlice stringLoader (procOf [(''M_a'', ''A'')]) ''a, b'' [] stringT
       (VSlice [VBasic ''old''])
     = Ret (None, VSlice [VBasic ''a'', VBasic ''b''])
   \<and> parseAndSetSlice stringLoader (procOf [(''M_a'', ''A'')]) ''a, b'' [] stringT (VSlice [])
     = Ret (None, VSlice [VBasic ''a'', VBasic ''b''])
   \<and> parseAndSetMap stringLoader (procOf [(''M_a'', ''A'')]) ''M_'' stringT innerT
       (VMap [(VBasic ''old'', VStruct [VBasic ''entry''])])
     = Ret (Some (ValueErr ''A'' innerT (NotSupported innerT)),
            VMap [(VBasic ''old'', VStruct [VBasic ''entry''])])
   \<and> parseAndSetMap stringLoader (procOf [(''M_a'', ''A'')]) ''M_'' stringT stringT
       (VMap [(VBasic ''old'', VBasic ''entry'')])
     = Ret (None, VMap [(VBasic ''a'', VBasic ''A'')])
   \<and> parseAndSetMap stringLoader (procOf [(''M_a'', ''A'')]) ''M_'' stringT stringT (VMap [])
     = Ret (None, VMap [(VBasic ''a'', VBasic ''A'')])"
proof -
  let ?p = "procOf [(''M_a'', ''A'')]"
  have s1: "parseAndSetSlice stringLoader ?p [dquote, CHR ''x''] [] stringT (VSlice [VBasic ''old''])
     = Ret (Some (TokErr UnbalancedQuotes), VSlice [VBasic ''old''])"
    by code_simp
  have s2: "parseAndSetSlice stringLoader ?p ''a, b'' [] stringT (VSlice [VBasic ''old''])
     = Ret (None, VSlice [VBasic ''a'', VBasic ''b''])"
    by code_simp
  have m1: "parseAndSetMap stringLoader ?p ''M_'' stringT innerT
       (VMap [(VBasic ''old'', VStruct [VBasic ''entry''])])
     = Ret (Some (ValueErr ''A'' innerT (NotSupported innerT)),
            VMap [(VBasic ''old'', VStruct [VBasic ''entry''])])"
    by code_simp
  have m2: "parseAndSetMap stringLoader ?p ''M_'' stringT stringT
       (VMap [(VBasic ''old'', VBasic ''entry'')])
     = Ret (None, VMap [(VBasic ''a'', VBasic ''A'')])"
    by code_simp
  have s3: "parseAndSetSlice stringLoader ?p ''a, b'' [] stringT (VSlice [])
     = Ret (None, VSlice [VBasic ''a'', VBasic ''b''])"
    using C10_collections_replaced_atomically [where l = stringLoader and p = ?p
        and s = "''a, b''" and n = "[]" and et = stringT and rv = "VSlice [VBasic ''old'']"
        and rv' = "VSlice [VBasic ''a'', VBasic ''b'']" and ?rv2.0 = "VSlice []"] s2
    by blast
  have m3: "parseAndSetMap stringLoader ?p ''M_'' stringT stringT (VMap [])
     = Ret (None, VMap [(VBasic ''a'', VBasic ''A'')])"
    using C10_collections_replaced_atomically [where l = stringLoader and p = ?p
        and name = "''M_''" and kt = stringT and vt = stringT
        and rv = "VMap [(VBasic ''old'', VBasic ''entry'')]"
        and rv' = "VMap [(VBasic ''a'', VBasic ''A'')]" and ?rv2.0 = "VMap []"] m2
    by blast
  show ?thesis
    using s1 s2 s3 m1 m2 m3 by simp
qed

text \<open>
  C10 as stated promises one entry for each scanned key. The variables \<^verbatim>\<open>K_7\<close> and \<^verbatim>\<open>K_07\<close>
  are both scanned; their suffixes are bound to the same \<^verbatim>\<open>int\<close> key and the new map
  holds one entry for the two of them.
\<close>

theorem C10_counterexample:
  "rangeOrder (procOf [(''K_7'', ''x''), (''K_07'', ''y'')])
       (varsPrefixed (procOf [(''K_7'', ''x''), (''K_07'', ''y'')]) ''K_'')
     = [(''K_7'', ''x''), (''K_07'', ''y'')]
   \<and> parseAndSetMap intLoader (procOf [(''K_7'', ''x''), (''K_07'', ''y'')]) ''K_'' intT stringT
        (VMap [(VBasic ''0'', VBasic ''old'')])
       = Ret (None, VMap [(VBasic ''7'', VBasic ''y'')])
   \<and> length [(VBasic ''7'', VBasic ''y'')] \<noteq> length [(''K_7'', ''x''), (''K_07'', ''y'')]"
  by code_simp

end
